theory Spec2Isabelle
  imports Main "HOL-Library.Word"
begin

section \<open>Document model\<close>

text \<open>
  A JavaScript string is a sequence of 16-bit code units. Document text and the synthetic
  sentence codes produced by \<open>String.fromCharCode\<close> are both modelled as lists of
  16-bit words. Type and attribute names are identifiers and stay HOL strings.
\<close>

type_synonym jschar = "16 word"
type_synonym jsstring = "jschar list"

definition js :: "string \<Rightarrow> jsstring" where
  "js s = map (\<lambda>c. of_nat (of_char c)) s"

text \<open>Attribute values are scalars; an absent attribute reads as \<open>undefined\<close> (\<open>None\<close>).\<close>

datatype jsval = JNull | JBool bool | JNum int | JStr jsstring

type_synonym attrs = "(string \<times> jsval) list"

datatype mark = Mark (mark_type: string) (mark_attrs: attrs)

text \<open>
  \<open>ProsemirrorNode\<close>: the fields the code reads, \<open>type.name\<close>, \<open>attrs\<close>, \<open>marks\<close>,
  \<open>content.content\<close> and \<open>text\<close> (\<open>undefined\<close> on every node that is not a text node).
\<close>

datatype node =
  Node (node_type: string) (node_attrs: attrs) (node_marks: "mark list")
       (node_content: "node list") (node_text: "jsstring option")

text \<open>\<open>ProsemirrorNodeLike = ProsemirrorNode | ProsemirrorNode[]\<close>\<close>

datatype nodelike = Single node | Group "node list"

text \<open>\<open>DiffType = { Unchanged: 0, Deleted: -1, Inserted: 1 }\<close>\<close>

datatype DiffTypeValue = Unchanged | Deleted | Inserted

fun DiffType_num :: "DiffTypeValue \<Rightarrow> int" where
  "DiffType_num Unchanged = 0"
| "DiffType_num Deleted = - 1"
| "DiffType_num Inserted = 1"

record MatchResult =
  oldStartIndex :: nat
  newStartIndex :: nat
  oldEndIndex :: nat
  newEndIndex :: nat
  count :: nat

text \<open>
  The errors the code throws. \<open>createNewNode\<close> also throws when \<open>oldNode.type\<close> is
  undefined; \<open>type\<close> is a mandatory field of the node class, so that guard has no
  input that reaches it and the model gives every node a type.
\<close>

datatype error =
  NodeTypeNotEqual string string
| TypeNotValid

section \<open>Accessors\<close>

definition getNodeAttributes :: "node \<Rightarrow> attrs" where
  "getNodeAttributes n = node_attrs n"

definition getNodeMarks :: "node \<Rightarrow> mark list" where
  "getNodeMarks n = node_marks n"

definition getNodeChildren :: "node \<Rightarrow> node list" where
  "getNodeChildren n = node_content n"

definition getNodeText :: "node \<Rightarrow> jsstring" where
  "getNodeText n = (case node_text n of None \<Rightarrow> [] | Some t \<Rightarrow> t)"

definition isTextNode :: "node \<Rightarrow> bool" where
  "isTextNode n = (node_type n = ''text'')"

text \<open>\<open>isTextNode\<close> on a normalized unit: an array is never a text node.\<close>

fun isTextNodeLike :: "nodelike \<Rightarrow> bool" where
  "isTextNodeLike (Group ns) = False"
| "isTextNodeLike (Single n) = isTextNode n"

fun ensureArray :: "nodelike \<Rightarrow> node list" where
  "ensureArray (Group ns) = ns"
| "ensureArray (Single n) = [n]"

fun matchNodeType :: "nodelike \<Rightarrow> nodelike \<Rightarrow> bool" where
  "matchNodeType (Group a) (Group b) = True"
| "matchNodeType (Group a) (Single n) = False"
| "matchNodeType (Single n) (Group b) = False"
| "matchNodeType (Single n1) (Single n2) = (node_type n1 = node_type n2)"

definition assertNodeTypeEqual :: "node \<Rightarrow> node \<Rightarrow> error + unit" where
  "assertNodeTypeEqual node1 node2 =
     (if node_type node1 \<noteq> node_type node2
      then Inl (NodeTypeNotEqual (node_type node1) (node_type node2))
      else Inr ())"

section \<open>Structural equality\<close>

text \<open>
  \<open>isNodeEqual\<close> on two marks: equal type names and equal \<open>JSON.stringify\<close> of the
  attributes. On objects of scalars the serialisation is injective in the key order and
  the values, which is equality of the association lists.
\<close>

definition isMarkEqual :: "mark \<Rightarrow> mark \<Rightarrow> bool" where
  "isMarkEqual m1 m2 = (mark_type m1 = mark_type m2 \<and> mark_attrs m1 = mark_attrs m2)"

text \<open>The loop over the union of both key sets, comparing \<open>attrs1[attr] !== attrs2[attr]\<close>.\<close>

definition attrsEqual :: "attrs \<Rightarrow> attrs \<Rightarrow> bool" where
  "attrsEqual attrs1 attrs2 =
     list_all (\<lambda>attr. map_of attrs1 attr = map_of attrs2 attr)
       (remdups (map fst attrs1 @ map fst attrs2))"

text \<open>\<open>isNodeEqual\<close> on two single nodes, with the source's order of checks.\<close>

fun isNodeEqual :: "node \<Rightarrow> node \<Rightarrow> bool" where
  "isNodeEqual (Node type1 attrs1 marks1 children1 text1) (Node type2 attrs2 marks2 children2 text2) =
     (if type1 \<noteq> type2 then False
      else if type1 = ''text'' \<and>
              (case text1 of None \<Rightarrow> [] | Some t \<Rightarrow> t) \<noteq> (case text2 of None \<Rightarrow> [] | Some t \<Rightarrow> t)
        then False
      else if \<not> attrsEqual attrs1 attrs2 then False
      else if length marks1 \<noteq> length marks2 then False
      else if \<not> list_all2 isMarkEqual marks1 marks2 then False
      else if length children1 \<noteq> length children2 then False
      else list_all2 isNodeEqual children1 children2)"

text \<open>\<open>isNodeEqual\<close> on normalized units: an array never equals a single node.\<close>

fun isNodeLikeEqual :: "nodelike \<Rightarrow> nodelike \<Rightarrow> bool" where
  "isNodeLikeEqual (Group a) (Group b) = (length a = length b \<and> list_all2 isNodeEqual a b)"
| "isNodeLikeEqual (Group a) (Single n) = False"
| "isNodeLikeEqual (Single n) (Group b) = False"
| "isNodeLikeEqual (Single n1) (Single n2) = isNodeEqual n1 n2"

section \<open>Normalized children\<close>

text \<open>
  \<open>normalizeNodeContent\<close>: every maximal run of adjacent text nodes becomes one array,
  every other child stays a single unit.
\<close>

function normalizeContent :: "node list \<Rightarrow> nodelike list" where
  "normalizeContent [] = []"
| "normalizeContent (child # rest) =
     (if isTextNode child
      then Group (child # takeWhile isTextNode rest) # normalizeContent (dropWhile isTextNode rest)
      else Single child # normalizeContent rest)"
  by pat_completeness auto
termination
  by (relation "measure length") (auto intro: le_imp_less_Suc length_dropWhile_le)

definition normalizeNodeContent :: "node \<Rightarrow> nodelike list" where
  "normalizeNodeContent n = normalizeContent (getNodeChildren n)"

section \<open>Diff annotator\<close>

text \<open>
  Modelled from the spec: the host document-model library's constructors, which are not
  part of this repository. \<open>schema.mark\<close>, \<open>schema.text\<close>, \<open>NodeType.create\<close> and
  \<open>Node.copy\<close> construct a mark or node of the given type, attributes, children and
  marks, exactly as given. A text node has the type name \<open>text\<close>, no attributes and no
  children.
\<close>

definition schema_mark :: "string \<Rightarrow> attrs \<Rightarrow> mark" where
  "schema_mark name as = Mark name as"

definition schema_text :: "jsstring \<Rightarrow> mark list \<Rightarrow> node" where
  "schema_text content marks = Node ''text'' [] marks [] (Some content)"

definition type_create :: "node \<Rightarrow> attrs \<Rightarrow> node list \<Rightarrow> mark list \<Rightarrow> node" where
  "type_create old as children marks = Node (node_type old) as marks children None"

definition node_copy :: "node \<Rightarrow> node list \<Rightarrow> node" where
  "node_copy n children =
     Node (node_type n) (node_attrs n) (node_marks n) children (node_text n)"

definition createDiffMark :: "DiffTypeValue \<Rightarrow> error + mark" where
  "createDiffMark ty =
     (if ty = Inserted then Inr (schema_mark ''diffMark'' [(''type'', JNum (DiffType_num ty))])
      else if ty = Deleted then Inr (schema_mark ''diffMark'' [(''type'', JNum (DiffType_num ty))])
      else Inl TypeNotValid)"

definition createTextNode :: "jsstring \<Rightarrow> mark list \<Rightarrow> node" where
  "createTextNode content marks = schema_text content marks"

definition createNewNode :: "node \<Rightarrow> node list \<Rightarrow> error + node" where
  "createNewNode oldNode children =
     Inr (type_create oldNode (node_attrs oldNode) children (node_marks oldNode))"

text \<open>Mapping a function that may throw over an array: the first throw aborts.\<close>

fun mapM_err :: "('a \<Rightarrow> error + 'b) \<Rightarrow> 'a list \<Rightarrow> error + 'b list" where
  "mapM_err f [] = Inr []"
| "mapM_err f (x # xs) =
     (case f x of
        Inl e \<Rightarrow> Inl e
      | Inr y \<Rightarrow> (case mapM_err f xs of Inl e \<Rightarrow> Inl e | Inr ys \<Rightarrow> Inr (y # ys)))"

lemma mapM_err_cong [fundef_cong]:
  "xs = ys \<Longrightarrow> (\<And>x. x \<in> set ys \<Longrightarrow> f x = g x) \<Longrightarrow> mapM_err f xs = mapM_err g ys"
  by (induction ys arbitrary: xs) (auto split: sum.splits)

text \<open>
  \<open>mapDocumentNode\<close>: children first, then the mapper on the copy; a mapper that
  returns \<open>null\<close> keeps the copy.
\<close>

function mapDocumentNode :: "(node \<Rightarrow> error + node option) \<Rightarrow> node \<Rightarrow> error + node" where
  "mapDocumentNode mapper n =
     (case mapM_err (\<lambda>currentNode. mapDocumentNode mapper currentNode) (node_content n) of
        Inl e \<Rightarrow> Inl e
      | Inr children \<Rightarrow>
          (let copy = node_copy n children
           in case mapper copy of
                Inl e \<Rightarrow> Inl e
              | Inr None \<Rightarrow> Inr copy
              | Inr (Some r) \<Rightarrow> Inr r))"
  by pat_completeness auto
termination
proof (relation "measure (\<lambda>(mapper, n). size n)")
  show "wf (measure (\<lambda>(mapper, n). size n))" by simp
next
  fix mapper :: "node \<Rightarrow> error + node option" and n x :: node
  assume "x \<in> set (node_content n)"
  then have "size x < size n"
    by (cases n) (auto simp: less_Suc_eq_le size_list_estimation')
  then show "((mapper, x), (mapper, n)) \<in> measure (\<lambda>(mapper, n). size n)" by simp
qed

declare mapDocumentNode.simps [simp del]

definition diffNodeMapper :: "DiffTypeValue \<Rightarrow> node \<Rightarrow> error + node option" where
  "diffNodeMapper ty currentNode =
     (if isTextNode currentNode
      then (case createDiffMark ty of
              Inl e \<Rightarrow> Inl e
            | Inr m \<Rightarrow> Inr (Some (createTextNode (getNodeText currentNode)
                                     (node_marks currentNode @ [m]))))
      else Inr (Some currentNode))"

definition createDiffNode :: "node \<Rightarrow> DiffTypeValue \<Rightarrow> error + node" where
  "createDiffNode n ty = mapDocumentNode (diffNodeMapper ty) n"

text \<open>
  The data-model invariant on text leaves (a text node carries text, no attributes and no
  children), and the annotation the Diff Annotator is specified to produce: every text
  leaf gains one diff mark at the end of its mark list, every other node keeps its own
  fields and has its children annotated.
\<close>

fun wellFormed :: "node \<Rightarrow> bool" where
  "wellFormed (Node t as ms cs x) =
     (if t = ''text'' then as = [] \<and> cs = [] \<and> x \<noteq> None else list_all wellFormed cs)"

fun annotated :: "DiffTypeValue \<Rightarrow> node \<Rightarrow> node" where
  "annotated A (Node t as ms cs x) =
     (if t = ''text''
      then Node t as (ms @ [Mark ''diffMark'' [(''type'', JNum (DiffType_num A))]]) cs x
      else Node t as ms (map (annotated A) cs) x)"

section \<open>Text diff engine\<close>

text \<open>
  \<open>tokenizeSentences\<close>: all matches of \<open>/[^.!?]+[.!?]*\s*/g\<close>. Each quantifier is
  greedy and nothing after it can fail, so a match at a position takes the longest run of
  non-terminators, then of terminators, then of white space. Where no match starts (the
  code unit is a terminator) the search moves on by one code unit.
\<close>

definition isTerminator :: "jschar \<Rightarrow> bool" where
  "isTerminator c = (c = 0x2E \<or> c = 0x21 \<or> c = 0x3F)"

definition isSpace :: "jschar \<Rightarrow> bool" where
  "isSpace c =
     (c = 0x09 \<or> c = 0x0A \<or> c = 0x0B \<or> c = 0x0C \<or> c = 0x0D \<or> c = 0x20 \<or> c = 0xA0 \<or>
      c = 0x1680 \<or> (0x2000 \<le> c \<and> c \<le> 0x200A) \<or> c = 0x2028 \<or> c = 0x2029 \<or>
      c = 0x202F \<or> c = 0x205F \<or> c = 0x3000 \<or> c = 0xFEFF)"

function tokenizeSentences :: "jsstring \<Rightarrow> jsstring list" where
  "tokenizeSentences [] = []"
| "tokenizeSentences (c # cs) =
     (if isTerminator c then tokenizeSentences cs
      else (let body = c # takeWhile (\<lambda>x. \<not> isTerminator x) cs;
                rest1 = dropWhile (\<lambda>x. \<not> isTerminator x) cs;
                punct = takeWhile isTerminator rest1;
                rest2 = dropWhile isTerminator rest1;
                space = takeWhile isSpace rest2;
                rest3 = dropWhile isSpace rest2
            in (body @ punct @ space) # tokenizeSentences rest3))"
  by pat_completeness auto
termination
proof (relation "measure length")
  show "wf (measure length)" by simp
next
  fix c :: jschar and cs :: jsstring
  show "(cs, c # cs) \<in> measure length" by simp
next
  fix c :: jschar and cs x xa xb xc xd xe :: jsstring
  assume "xa = dropWhile (\<lambda>x. \<not> isTerminator x) cs" "xc = dropWhile isTerminator xa"
    "xe = dropWhile isSpace xc"
  then have "length xe \<le> length cs"
    by (metis length_dropWhile_le le_trans)
  then show "(xe, c # cs) \<in> measure length" by simp
qed

declare tokenizeSentences.simps [simp del]

text \<open>
  \<open>sentencesToChars\<close>. \<open>line in lineHash\<close> also holds for the property names every
  object inherits from \<open>Object.prototype\<close>; for those \<open>lineHash[line]\<close> is not a
  number and \<open>String.fromCharCode\<close> yields the code unit 0. \<open>String.fromCharCode\<close>
  keeps the low 16 bits of its argument. A hole of \<open>lineArray\<close> is read through
  \<open>|| ''\<close> only, so it is the empty string here.
\<close>

definition protoKeys :: "jsstring list" where
  "protoKeys = map js [''constructor'', ''__defineGetter__'', ''__defineSetter__'',
     ''hasOwnProperty'', ''__lookupGetter__'', ''__lookupSetter__'', ''isPrototypeOf'',
     ''propertyIsEnumerable'', ''toString'', ''valueOf'', ''__proto__'', ''toLocaleString'']"

definition array_set :: "jsstring list \<Rightarrow> nat \<Rightarrow> jsstring \<Rightarrow> jsstring list" where
  "array_set xs i v =
     (if i < length xs then xs[i := v] else xs @ replicate (i - length xs) [] @ [v])"

type_synonym lineState = "jsstring list \<times> (jsstring \<rightharpoonup> nat) \<times> nat"

definition internLine :: "jsstring \<Rightarrow> lineState \<Rightarrow> jschar \<times> lineState" where
  "internLine line st =
     (case st of (lineArray, lineHash, lineStart) \<Rightarrow>
        if line \<in> set protoKeys then (0, st)
        else (case lineHash line of
                Some i \<Rightarrow> (of_nat i, st)
              | None \<Rightarrow> (of_nat lineStart,
                         (array_set lineArray lineStart line, lineHash(line \<mapsto> lineStart),
                          lineStart + 1))))"

fun internLines :: "jsstring list \<Rightarrow> lineState \<Rightarrow> jschar list \<times> lineState" where
  "internLines [] st = ([], st)"
| "internLines (line # rest) st =
     (case internLine line st of (c, st1) \<Rightarrow>
        (case internLines rest st1 of (cs, st2) \<Rightarrow> (c # cs, st2)))"

definition sentencesToChars :: "jsstring list \<Rightarrow> jsstring list \<Rightarrow> jsstring \<times> jsstring \<times> jsstring list" where
  "sentencesToChars oldSentences newSentences =
     (case internLines oldSentences ([], Map.empty, 0) of (chars1, st1) \<Rightarrow>
        (case internLines newSentences st1 of (chars2, st2) \<Rightarrow> (chars1, chars2, fst st2)))"

text \<open>The expansion of one diff segment back to its sentences.\<close>

definition charsToSentences :: "jsstring list \<Rightarrow> jsstring \<Rightarrow> jsstring list" where
  "charsToSentences lineArray text =
     filter (\<lambda>s. s \<noteq> [])
       (map (\<lambda>c. if unat c < length lineArray then lineArray ! unat c else []) text)"

text \<open>
  \<open>diff_main\<close> of the diff-match-patch package is not part of this repository: it is a
  parameter of the engine. Its contract is that of a diff: the segments that are not
  insertions spell the first text, the segments that are not deletions spell the second.
\<close>

type_synonym diff_main = "jsstring \<Rightarrow> jsstring \<Rightarrow> (DiffTypeValue \<times> jsstring) list"

definition keepText :: "DiffTypeValue \<Rightarrow> (DiffTypeValue \<times> jsstring) list \<Rightarrow> jsstring" where
  "keepText dropped diffs = concat (map snd (filter (\<lambda>d. fst d \<noteq> dropped) diffs))"

definition diff_contract :: "diff_main \<Rightarrow> jsstring \<Rightarrow> jsstring \<Rightarrow> bool" where
  "diff_contract dmp text1 text2 =
     (keepText Inserted (dmp text1 text2) = text1 \<and> keepText Deleted (dmp text1 text2) = text2)"

definition sentenceNode :: "DiffTypeValue \<Rightarrow> jsstring \<Rightarrow> error + node" where
  "sentenceNode ty sentence =
     (case (if ty \<noteq> Unchanged
            then (case createDiffMark ty of Inl e \<Rightarrow> Inl e | Inr m \<Rightarrow> Inr [m])
            else Inr []) of
        Inl e \<Rightarrow> Inl e
      | Inr marks \<Rightarrow> Inr (createTextNode sentence marks))"

definition patchTextNodes :: "diff_main \<Rightarrow> node list \<Rightarrow> node list \<Rightarrow> error + node list" where
  "patchTextNodes dmp oldNode newNode =
     (let oldText = concat (map getNodeText oldNode);
          newText = concat (map getNodeText newNode);
          oldSentences = tokenizeSentences oldText;
          newSentences = tokenizeSentences newText
      in case sentencesToChars oldSentences newSentences of (chars1, chars2, lineArray) \<Rightarrow>
           (let rawDiffs = dmp chars1 chars2;
                diffs = map (\<lambda>(ty, text). (ty, charsToSentences lineArray text)) rawDiffs
            in case mapM_err (\<lambda>(ty, sentences). mapM_err (sentenceNode ty) sentences) diffs of
                 Inl e \<Rightarrow> Inl e
               | Inr res \<Rightarrow> Inr (concat res)))"

text \<open>
  A small diff primitive that meets the contract, for running the engine on concrete
  inputs: equal texts are one unchanged segment, otherwise the common prefix is unchanged
  and the two remainders are a deletion followed by an insertion.
\<close>

fun commonPrefix :: "jsstring \<Rightarrow> jsstring \<Rightarrow> jsstring" where
  "commonPrefix (x # xs) (y # ys) = (if x = y then x # commonPrefix xs ys else [])"
| "commonPrefix xs ys = []"

definition segment :: "DiffTypeValue \<Rightarrow> jsstring \<Rightarrow> (DiffTypeValue \<times> jsstring) list" where
  "segment ty text = (if text = [] then [] else [(ty, text)])"

definition prefix_diff :: diff_main where
  "prefix_diff text1 text2 =
     (let p = commonPrefix text1 text2
      in segment Unchanged p @ segment Deleted (drop (length p) text1)
         @ segment Inserted (drop (length p) text2))"

text \<open>The annotation a leaf of the engine's output carries.\<close>

definition diffMarkOf :: "DiffTypeValue \<Rightarrow> mark" where
  "diffMarkOf ty = Mark ''diffMark'' [(''type'', JNum (DiffType_num ty))]"

definition leafAnnotation :: "node \<Rightarrow> DiffTypeValue" where
  "leafAnnotation n =
     (if diffMarkOf Deleted \<in> set (node_marks n) then Deleted
      else if diffMarkOf Inserted \<in> set (node_marks n) then Inserted
      else Unchanged)"

definition keptText :: "DiffTypeValue \<Rightarrow> node list \<Rightarrow> jsstring" where
  "keptText dropped leaves =
     concat (map getNodeText (filter (\<lambda>n. leafAnnotation n \<noteq> dropped) leaves))"

section \<open>Best-run matcher\<close>

function findMatchNode :: "nodelike list \<Rightarrow> nodelike \<Rightarrow> nat \<Rightarrow> nat option" where
  "findMatchNode children n i =
     (if i < length children
      then (if isNodeLikeEqual (children ! i) n then Some i
            else findMatchNode children n (i + 1))
      else None)"
  by pat_completeness auto
termination
  by (relation "measure (\<lambda>(children, n, i). length children - i)") auto

declare findMatchNode.simps [simp del]

text \<open>The inner loop of \<open>matchNodes\<close>: both end indices move on while the units are equal.\<close>

function extendMatch :: "nodelike list \<Rightarrow> nodelike list \<Rightarrow> nat \<Rightarrow> nat \<Rightarrow> nat \<times> nat" where
  "extendMatch oldChildren newChildren oldEnd newEnd =
     (if oldEnd < length oldChildren \<and> newEnd < length newChildren
      then (if \<not> isNodeLikeEqual (newChildren ! newEnd) (oldChildren ! oldEnd)
            then (oldEnd, newEnd)
            else extendMatch oldChildren newChildren (oldEnd + 1) (newEnd + 1))
      else (oldEnd, newEnd))"
  by pat_completeness auto
termination
  by (relation "measure (\<lambda>(oldChildren, newChildren, oldEnd, newEnd). length oldChildren - oldEnd)")
     auto

declare extendMatch.simps [simp del]

function matchNodesFrom ::
  "nodelike list \<Rightarrow> nodelike list \<Rightarrow> nat \<Rightarrow> MatchResult list \<Rightarrow> MatchResult list" where
  "matchNodesFrom oldChildren newChildren oldStart matches =
     (if oldStart < length oldChildren
      then (case findMatchNode newChildren (oldChildren ! oldStart) 0 of
              None \<Rightarrow> matchNodesFrom oldChildren newChildren (oldStart + 1) matches
            | Some newStart \<Rightarrow>
                (case extendMatch oldChildren newChildren (oldStart + 1) (newStart + 1) of
                   (oldEnd, newEnd) \<Rightarrow>
                     matchNodesFrom oldChildren newChildren (oldStart + 1)
                       (matches @ [\<lparr>oldStartIndex = oldStart, newStartIndex = newStart,
                                    oldEndIndex = oldEnd, newEndIndex = newEnd,
                                    count = newEnd - newStart\<rparr>])))
      else matches)"
  by pat_completeness auto
termination
  by (relation "measure (\<lambda>(oldChildren, newChildren, oldStart, matches). length oldChildren - oldStart)")
     auto

declare matchNodesFrom.simps [simp del]

definition matchNodes :: "nodelike list \<Rightarrow> nodelike list \<Rightarrow> MatchResult list" where
  "matchNodes oldChildren newChildren = matchNodesFrom oldChildren newChildren 0 []"

text \<open>
  \<open>.sort((a, b) => b.count - a.count)\<close> followed by \<open>matchedNodes[0]\<close>: a stable sort
  by descending count, then the first entry if there is one.
\<close>

definition sortByCount :: "MatchResult list \<Rightarrow> MatchResult list" where
  "sortByCount ms = sort_key (\<lambda>m. - int (count m)) ms"

definition bestMatch :: "MatchResult list \<Rightarrow> MatchResult option" where
  "bestMatch ms = (case sortByCount ms of [] \<Rightarrow> None | m # rest \<Rightarrow> Some m)"

section \<open>Tree patcher\<close>

text \<open>
  In the source \<open>patchDocumentNode\<close> and \<open>patchRemainNodes\<close> call each other. Here
  \<open>patchRemainNodes\<close> comes first and takes the recursive call as its argument \<open>patch\<close>;
  \<open>patchDocumentNode\<close> below passes itself. The recursion ends because \<open>patch\<close> is only
  applied to single units of the children lists, which are children of the old node.
\<close>

definition computeChildEqualityFactor :: "nodelike \<Rightarrow> nodelike \<Rightarrow> int" where
  "computeChildEqualityFactor node1 node2 = 0"

definition slice :: "'a list \<Rightarrow> nat \<Rightarrow> nat \<Rightarrow> 'a list" where
  "slice xs start end = take (end - start) (drop start xs)"

text \<open>
  The state of the two-pointer loop of \<open>patchRemainNodes\<close>. The pointers only grow from
  0 and the loop guard keeps \<open>left + right\<close> below both lengths, so every index and
  length difference the loop computes is a natural number.
\<close>

record remainState =
  rs_left :: nat
  rs_right :: nat
  rs_finalLeft :: "node list"
  rs_finalRight :: "node list"

definition isArray :: "nodelike \<Rightarrow> bool" where
  "isArray u = (case u of Group ns \<Rightarrow> True | Single n \<Rightarrow> False)"

text \<open>
  One iteration of the \<open>while\<close> loop of \<open>patchRemainNodes\<close>; \<open>patch\<close> is the recursive
  call of \<open>patchDocumentNode\<close>.
\<close>

definition patchRemainStep ::
  "(node \<Rightarrow> node \<Rightarrow> error + node) \<Rightarrow> diff_main \<Rightarrow> nodelike list \<Rightarrow> nodelike list \<Rightarrow>
   remainState \<Rightarrow> error + remainState" where
  "patchRemainStep patch dmp oldChildren newChildren st =
     (let left = rs_left st;
          right = rs_right st;
          leftOldNode = oldChildren ! left;
          leftNewNode = newChildren ! left;
          rightOldNode = oldChildren ! (length oldChildren - right - 1);
          rightNewNode = newChildren ! (length newChildren - right - 1);
          updateLeft0 = (\<not> isTextNodeLike leftOldNode \<and> matchNodeType leftOldNode leftNewNode);
          updateRight0 = (\<not> isTextNodeLike rightOldNode \<and> matchNodeType rightOldNode rightNewNode)
      in if isArray leftOldNode \<and> isArray leftNewNode
         then (case patchTextNodes dmp (ensureArray leftOldNode) (ensureArray leftNewNode) of
                 Inl e \<Rightarrow> Inl e
               | Inr ns \<Rightarrow> Inr (st\<lparr>rs_left := left + 1, rs_finalLeft := rs_finalLeft st @ ns\<rparr>))
         else
           (let (updateLeft, updateRight) =
                  (if updateLeft0 \<and> updateRight0
                   then (if computeChildEqualityFactor leftOldNode leftNewNode
                            < computeChildEqualityFactor rightOldNode rightNewNode
                         then (False, updateRight0)
                         else (updateLeft0, False))
                   else (updateLeft0, updateRight0))
            in if updateLeft
               then (case (leftOldNode, leftNewNode) of
                       (Single oldN, Single newN) \<Rightarrow>
                         (case patch oldN newN of
                            Inl e \<Rightarrow> Inl e
                          | Inr r \<Rightarrow> Inr (st\<lparr>rs_left := left + 1,
                                              rs_finalLeft := rs_finalLeft st @ [r]\<rparr>))
                     | _ \<Rightarrow> Inr (st\<lparr>rs_left := left + 1\<rparr>))
               else if updateRight
               then (case (rightOldNode, rightNewNode) of
                       (Single oldN, Single newN) \<Rightarrow>
                         (case patch oldN newN of
                            Inl e \<Rightarrow> Inl e
                          | Inr r \<Rightarrow> Inr (st\<lparr>rs_right := right + 1,
                                              rs_finalRight := r # rs_finalRight st\<rparr>))
                     | _ \<Rightarrow> Inr (st\<lparr>rs_right := right + 1\<rparr>))
               else
                 (case (case leftOldNode of
                          Single oldN \<Rightarrow> (case createDiffNode oldN Deleted of
                                            Inl e \<Rightarrow> Inl e | Inr d \<Rightarrow> Inr [d])
                        | Group ns \<Rightarrow> Inr []) of
                    Inl e \<Rightarrow> Inl e
                  | Inr deleted \<Rightarrow>
                      (case (case leftNewNode of
                               Single newN \<Rightarrow> (case createDiffNode newN Inserted of
                                                 Inl e \<Rightarrow> Inl e | Inr d \<Rightarrow> Inr [d])
                             | Group ns \<Rightarrow> Inr []) of
                         Inl e \<Rightarrow> Inl e
                       | Inr inserted \<Rightarrow>
                           Inr (st\<lparr>rs_left := left + 1,
                                   rs_finalLeft := rs_finalLeft st @ deleted @ inserted\<rparr>)))))"

lemma patchRemainStep_advances:
  "patchRemainStep patch dmp oldChildren newChildren st = Inr st' \<Longrightarrow>
   rs_left st' + rs_right st' = rs_left st + rs_right st + 1"
  unfolding patchRemainStep_def Let_def
  by (auto split: if_splits sum.splits nodelike.splits prod.splits)

definition remainGuard :: "nodelike list \<Rightarrow> nodelike list \<Rightarrow> remainState \<Rightarrow> bool" where
  "remainGuard oldChildren newChildren st =
     (length oldChildren - rs_left st - rs_right st > 0 \<and>
      length newChildren - rs_left st - rs_right st > 0)"

function patchRemainLoop ::
  "(node \<Rightarrow> node \<Rightarrow> error + node) \<Rightarrow> diff_main \<Rightarrow> nodelike list \<Rightarrow> nodelike list \<Rightarrow>
   remainState \<Rightarrow> error + remainState" where
  "patchRemainLoop patch dmp oldChildren newChildren st =
     (if remainGuard oldChildren newChildren st
      then (case patchRemainStep patch dmp oldChildren newChildren st of
              Inl e \<Rightarrow> Inl e
            | Inr st' \<Rightarrow> patchRemainLoop patch dmp oldChildren newChildren st')
      else Inr st)"
  by pat_completeness auto
termination
proof (relation "measure (\<lambda>(patch, dmp, oldChildren, newChildren, st).
                    length oldChildren - (rs_left st + rs_right st))")
  show "wf (measure (\<lambda>(patch, dmp, oldChildren, newChildren, st).
                    length oldChildren - (rs_left st + rs_right st)))" by simp
next
  fix patch :: "node \<Rightarrow> node \<Rightarrow> error + node" and dmp :: diff_main
    and oldChildren newChildren :: "nodelike list" and st st' :: remainState
  assume g: "remainGuard oldChildren newChildren st"
    and s: "patchRemainStep patch dmp oldChildren newChildren st = Inr st'"
  from patchRemainStep_advances [OF s] g
  show "((patch, dmp, oldChildren, newChildren, st'), (patch, dmp, oldChildren, newChildren, st))
        \<in> measure (\<lambda>(patch, dmp, oldChildren, newChildren, st).
                    length oldChildren - (rs_left st + rs_right st))"
    by (auto simp add: remainGuard_def)
qed

declare patchRemainLoop.simps [simp del]

text \<open>
  The remainder after the loop: \<open>.flat()\<close>, then \<open>createDiffNode\<close> on every node (after
  \<open>.flat()\<close> every element is a node, so the \<open>null\<close> filter removes nothing).
\<close>

definition diffNodes :: "DiffTypeValue \<Rightarrow> nodelike list \<Rightarrow> error + node list" where
  "diffNodes ty units = mapM_err (\<lambda>n. createDiffNode n ty) (concat (map ensureArray units))"

definition patchRemainNodes ::
  "(node \<Rightarrow> node \<Rightarrow> error + node) \<Rightarrow> diff_main \<Rightarrow> nodelike list \<Rightarrow> nodelike list \<Rightarrow>
   error + node list" where
  "patchRemainNodes patch dmp oldChildren newChildren =
     (case patchRemainLoop patch dmp oldChildren newChildren
             \<lparr>rs_left = 0, rs_right = 0, rs_finalLeft = [], rs_finalRight = []\<rparr> of
        Inl e \<Rightarrow> Inl e
      | Inr st \<Rightarrow>
          (let left = rs_left st;
               right = rs_right st;
               deleteNodeLen = length oldChildren - left - right;
               insertNodeLen = length newChildren - left - right
           in case (if deleteNodeLen \<noteq> 0
                    then diffNodes Deleted (slice oldChildren left (left + deleteNodeLen))
                    else Inr []) of
                Inl e \<Rightarrow> Inl e
              | Inr deleted \<Rightarrow>
                  (case (if insertNodeLen \<noteq> 0
                         then diffNodes Inserted (slice newChildren left (left + insertNodeLen))
                         else Inr []) of
                     Inl e \<Rightarrow> Inl e
                   | Inr inserted \<Rightarrow>
                       Inr ((rs_finalLeft st @ deleted) @ (inserted @ rs_finalRight st)))))"

text \<open>
  \<open>patchRemainNodes\<close> applies \<open>patch\<close> to single units of its two lists only, so two
  functions that agree there give the same result.
\<close>

lemma patchRemainStep_cong:
  assumes "remainGuard oldChildren newChildren st"
    and "\<And>oldN newN. Single oldN \<in> set oldChildren \<Longrightarrow> Single newN \<in> set newChildren \<Longrightarrow>
           f oldN newN = g oldN newN"
  shows "patchRemainStep f dmp oldChildren newChildren st
         = patchRemainStep g dmp oldChildren newChildren st"
proof -
  from assms(1) have l: "rs_left st < length oldChildren" "rs_left st < length newChildren"
    and r: "length oldChildren - rs_right st - 1 < length oldChildren"
      "length newChildren - rs_right st - 1 < length newChildren"
    by (auto simp: remainGuard_def)
  have L: "f oldN newN = g oldN newN"
    if "oldChildren ! rs_left st = Single oldN" "newChildren ! rs_left st = Single newN"
    for oldN newN
    using assms(2) [of oldN newN] that l by (metis nth_mem)
  have R: "f oldN newN = g oldN newN"
    if "oldChildren ! (length oldChildren - rs_right st - 1) = Single oldN"
      "newChildren ! (length newChildren - rs_right st - 1) = Single newN"
    for oldN newN
    using assms(2) [of oldN newN] that r by (metis nth_mem)
  show ?thesis
    unfolding patchRemainStep_def Let_def
    by (auto split: nodelike.splits simp: L R)
qed

lemma patchRemainLoop_cong:
  assumes "\<And>oldN newN. Single oldN \<in> set oldChildren \<Longrightarrow> Single newN \<in> set newChildren \<Longrightarrow>
           f oldN newN = g oldN newN"
  shows "patchRemainLoop f dmp oldChildren newChildren st
         = patchRemainLoop g dmp oldChildren newChildren st"
  using assms
proof (induction f dmp oldChildren newChildren st rule: patchRemainLoop.induct)
  case (1 patch dmp oldChildren newChildren st)
  show ?case
  proof (cases "remainGuard oldChildren newChildren st")
    case True
    have eq: "patchRemainStep patch dmp oldChildren newChildren st
         = patchRemainStep g dmp oldChildren newChildren st"
      by (rule patchRemainStep_cong [OF True]) (rule "1.prems")
    show ?thesis
    proof (cases "patchRemainStep patch dmp oldChildren newChildren st")
      case (Inl e)
      moreover from Inl eq have "patchRemainStep g dmp oldChildren newChildren st = Inl e"
        by simp
      ultimately show ?thesis using True
        by (simp add: patchRemainLoop.simps [of _ _ _ _ st])
    next
      case (Inr st')
      moreover from Inr eq have "patchRemainStep g dmp oldChildren newChildren st = Inr st'"
        by simp
      ultimately show ?thesis using "1.IH" [OF True Inr "1.prems"] True
        by (simp add: patchRemainLoop.simps [of _ _ _ _ st])
    qed
  next
    case False
    then show ?thesis by (simp add: patchRemainLoop.simps [of _ _ _ _ st])
  qed
qed

lemma patchRemainNodes_cong [fundef_cong]:
  assumes "dmp = dmp'" "oldChildren = oldChildren'" "newChildren = newChildren'"
    and "\<And>oldN newN. Single oldN \<in> set oldChildren' \<Longrightarrow> Single newN \<in> set newChildren' \<Longrightarrow>
           f oldN newN = g oldN newN"
  shows "patchRemainNodes f dmp oldChildren newChildren
         = patchRemainNodes g dmp' oldChildren' newChildren'"
  unfolding patchRemainNodes_def assms(1-3)
  by (simp add: patchRemainLoop_cong [of oldChildren' newChildren' f g, OF assms(4)])

text \<open>The two trimming loops of \<open>patchDocumentNode\<close>, each with its accumulator.\<close>

function prefixTrim ::
  "nodelike list \<Rightarrow> nodelike list \<Rightarrow> nat \<Rightarrow> node list \<Rightarrow> nat \<times> node list" where
  "prefixTrim oldChildren newChildren left finalLeftChildren =
     (if left < min (length oldChildren) (length newChildren)
      then (if \<not> isNodeLikeEqual (oldChildren ! left) (newChildren ! left)
            then (left, finalLeftChildren)
            else prefixTrim oldChildren newChildren (left + 1)
                   (finalLeftChildren @ ensureArray (oldChildren ! left)))
      else (left, finalLeftChildren))"
  by pat_completeness auto
termination
  by (relation "measure (\<lambda>(oldChildren, newChildren, left, acc).
                   min (length oldChildren) (length newChildren) - left)") auto

declare prefixTrim.simps [simp del]

function suffixTrim ::
  "nodelike list \<Rightarrow> nodelike list \<Rightarrow> nat \<Rightarrow> nat \<Rightarrow> node list \<Rightarrow> nat \<times> node list" where
  "suffixTrim oldChildren newChildren left right finalRightChildren =
     (if right + left + 1 < min (length oldChildren) (length newChildren)
      then (if \<not> isNodeLikeEqual (oldChildren ! (length oldChildren - right - 1))
                                   (newChildren ! (length newChildren - right - 1))
            then (right, finalRightChildren)
            else suffixTrim oldChildren newChildren left (right + 1)
                   (ensureArray (oldChildren ! (length oldChildren - right - 1))
                    @ finalRightChildren))
      else (right, finalRightChildren))"
  by pat_completeness auto
termination
  by (relation "measure (\<lambda>(oldChildren, newChildren, left, right, acc).
                   min (length oldChildren) (length newChildren) - right)") auto

declare suffixTrim.simps [simp del]

text \<open>
  The body of \<open>patchDocumentNode\<close> between the normalisation of the children and
  \<open>createNewNode\<close>; \<open>patch\<close> is the recursive call of \<open>patchDocumentNode\<close> made by
  \<open>patchRemainNodes\<close>.
\<close>

definition patchChildren ::
  "(node \<Rightarrow> node \<Rightarrow> error + node) \<Rightarrow> diff_main \<Rightarrow> nodelike list \<Rightarrow> nodelike list \<Rightarrow>
   error + node list" where
  "patchChildren patch dmp oldChildren newChildren =
     (let oldChildLen = length oldChildren;
          newChildLen = length newChildren
      in case prefixTrim oldChildren newChildren 0 [] of (left, finalLeft0) \<Rightarrow>
         (case suffixTrim oldChildren newChildren left 0 [] of (right, finalRight0) \<Rightarrow>
         (let diffOldChildren = slice oldChildren left (oldChildLen - right);
              diffNewChildren = slice newChildren left (newChildLen - right)
          in if diffOldChildren \<noteq> [] \<and> diffNewChildren \<noteq> []
             then (case bestMatch (matchNodes diffOldChildren diffNewChildren) of
                     Some bm \<Rightarrow>
                       (case patchRemainNodes patch dmp
                               (slice diffOldChildren 0 (oldStartIndex bm))
                               (slice diffNewChildren 0 (newStartIndex bm)) of
                          Inl e \<Rightarrow> Inl e
                        | Inr beforeNodes \<Rightarrow>
                            (case patchRemainNodes patch dmp
                                    (drop (oldEndIndex bm) diffOldChildren)
                                    (drop (newEndIndex bm) diffNewChildren) of
                               Inl e \<Rightarrow> Inl e
                             | Inr afterNodes \<Rightarrow>
                                 Inr ((finalLeft0 @ beforeNodes
                                       @ concat (map ensureArray
                                           (slice diffOldChildren (oldStartIndex bm) (oldEndIndex bm))))
                                      @ (afterNodes @ finalRight0))))
                   | None \<Rightarrow>
                       (case patchRemainNodes patch dmp diffOldChildren diffNewChildren of
                          Inl e \<Rightarrow> Inl e
                        | Inr r \<Rightarrow> Inr ((finalLeft0 @ r) @ finalRight0)))
             else (case patchRemainNodes patch dmp diffOldChildren diffNewChildren of
                     Inl e \<Rightarrow> Inl e
                   | Inr r \<Rightarrow> Inr ((finalLeft0 @ r) @ finalRight0)))))"

lemma set_slice_subset: "set (slice xs a b) \<subseteq> set xs"
  unfolding slice_def by (meson set_take_subset set_drop_subset subset_trans)

lemma patchChildren_cong [fundef_cong]:
  assumes "dmp = dmp'" "oldChildren = oldChildren'" "newChildren = newChildren'"
    and "\<And>oldN newN. Single oldN \<in> set oldChildren' \<Longrightarrow> Single newN \<in> set newChildren' \<Longrightarrow>
           f oldN newN = g oldN newN"
  shows "patchChildren f dmp oldChildren newChildren = patchChildren g dmp' oldChildren' newChildren'"
proof -
  have sub: "patchRemainNodes f dmp' os ns = patchRemainNodes g dmp' os ns"
    if "set os \<subseteq> set oldChildren'" "set ns \<subseteq> set newChildren'" for os ns
    using that by (intro patchRemainNodes_cong refl assms(4)) auto
  have s1: "set (slice (slice oldChildren' a b) c d) \<subseteq> set oldChildren'" for a b c d
    using set_slice_subset by (meson subset_trans)
  have s2: "set (slice (slice newChildren' a b) c d) \<subseteq> set newChildren'" for a b c d
    using set_slice_subset by (meson subset_trans)
  have s3: "set (drop c (slice oldChildren' a b)) \<subseteq> set oldChildren'" for a b c
    using set_slice_subset set_drop_subset by (meson subset_trans)
  have s4: "set (drop c (slice newChildren' a b)) \<subseteq> set newChildren'" for a b c
    using set_slice_subset set_drop_subset by (meson subset_trans)
  show ?thesis
    unfolding patchChildren_def assms(1-3) Let_def
    by (simp add: sub set_slice_subset s1 s2 s3 s4 split: prod.splits option.splits
        cong: sum.case_cong)
qed

lemma Single_normalizeContent: "Single n \<in> set (normalizeContent cs) \<Longrightarrow> n \<in> set cs"
proof (induction cs rule: normalizeContent.induct)
  case 1
  then show ?case by simp
next
  case (2 child rest)
  then show ?case
    by (auto split: if_splits dest: set_dropWhileD)
qed

function patchDocumentNode :: "diff_main \<Rightarrow> node \<Rightarrow> node \<Rightarrow> error + node" where
  "patchDocumentNode dmp oldNode newNode =
     (case assertNodeTypeEqual oldNode newNode of
        Inl e \<Rightarrow> Inl e
      | Inr u \<Rightarrow>
          (case patchChildren (\<lambda>oldN newN. patchDocumentNode dmp oldN newN) dmp
                  (normalizeNodeContent oldNode) (normalizeNodeContent newNode) of
             Inl e \<Rightarrow> Inl e
           | Inr children \<Rightarrow> createNewNode oldNode children))"
  by pat_completeness auto
termination
proof (relation "measure (\<lambda>(dmp, oldNode, newNode). size oldNode)")
  show "wf (measure (\<lambda>(dmp, oldNode, newNode). size oldNode))" by simp
next
  fix dmp :: diff_main and oldNode newNode oldN newN :: node
  assume "Single oldN \<in> set (normalizeNodeContent oldNode)"
  then have "oldN \<in> set (node_content oldNode)"
    by (simp add: normalizeNodeContent_def getNodeChildren_def Single_normalizeContent)
  then have "size oldN < size oldNode"
    by (cases oldNode) (auto simp: less_Suc_eq_le size_list_estimation')
  then show "((dmp, oldN, newN), (dmp, oldNode, newNode))
             \<in> measure (\<lambda>(dmp, oldNode, newNode). size oldNode)" by simp
qed

declare patchDocumentNode.simps [simp del]

text \<open>
  \<open>diffEditor\<close> on the two parsed documents; parsing the interchange form is the
  library's \<open>Node.fromJSON\<close>.
\<close>

definition diffEditor :: "diff_main \<Rightarrow> node \<Rightarrow> node \<Rightarrow> error + node" where
  "diffEditor dmp oldDoc newDoc = patchDocumentNode dmp oldDoc newDoc"

section \<open>Example documents\<close>

definition textNode :: "string \<Rightarrow> node" where
  "textNode s = Node ''text'' [] [] [] (Some (js s))"

definition paragraphNode :: "node list \<Rightarrow> node" where
  "paragraphNode cs = Node ''paragraph'' [] [] cs None"

definition docNode :: "node list \<Rightarrow> node" where
  "docNode cs = Node ''doc'' [] [] cs None"

definition imageNode :: node where
  "imageNode = Node ''image'' [] [] [] None"

definition ex_par :: node where
  "ex_par = Node ''paragraph'' [(''align'', JStr (js ''left''))] []
     [Node ''text'' [] [Mark ''bold'' []] [] (Some (js ''Hi'')), imageNode] None"

text \<open>
  The recursive call is safe on a pair of children lists when it returns a node for every
  pair of single units of equal type.
\<close>

definition patchOk :: "(node \<Rightarrow> node \<Rightarrow> error + node) \<Rightarrow> nodelike list \<Rightarrow> nodelike list \<Rightarrow> bool" where
  "patchOk patch oldChildren newChildren =
     (\<forall>oldN newN. Single oldN \<in> set oldChildren \<longrightarrow> Single newN \<in> set newChildren \<longrightarrow>
        node_type oldN = node_type newN \<longrightarrow> (\<exists>r. patch oldN newN = Inr r))"

text \<open>
  Names for what one iteration of the loop of \<open>patchRemainNodes\<close> reads: the four
  current units and whether a pair is updatable; and for the two pointers
  \<open>patchDocumentNode\<close> has after its trimming loops.
\<close>

definition updatable :: "nodelike \<Rightarrow> nodelike \<Rightarrow> bool" where
  "updatable oldUnit newUnit = (\<not> isTextNodeLike oldUnit \<and> matchNodeType oldUnit newUnit)"

definition leftOld :: "nodelike list \<Rightarrow> remainState \<Rightarrow> nodelike" where
  "leftOld oldChildren st = oldChildren ! rs_left st"

definition leftNew :: "nodelike list \<Rightarrow> remainState \<Rightarrow> nodelike" where
  "leftNew newChildren st = newChildren ! rs_left st"

definition rightOld :: "nodelike list \<Rightarrow> remainState \<Rightarrow> nodelike" where
  "rightOld oldChildren st = oldChildren ! (length oldChildren - rs_right st - 1)"

definition rightNew :: "nodelike list \<Rightarrow> remainState \<Rightarrow> nodelike" where
  "rightNew newChildren st = newChildren ! (length newChildren - rs_right st - 1)"

definition trimLeft :: "nodelike list \<Rightarrow> nodelike list \<Rightarrow> nat" where
  "trimLeft oldChildren newChildren = fst (prefixTrim oldChildren newChildren 0 [])"

definition trimRight :: "nodelike list \<Rightarrow> nodelike list \<Rightarrow> nat" where
  "trimRight oldChildren newChildren =
     fst (suffixTrim oldChildren newChildren (trimLeft oldChildren newChildren) 0 [])"

definition remainStart :: remainState where
  "remainStart = \<lparr>rs_left = 0, rs_right = 0, rs_finalLeft = [], rs_finalRight = []\<rparr>"

definition ex_units_ABC :: "nodelike list" where
  "ex_units_ABC = [Single (paragraphNode [textNode ''A'']), Single (paragraphNode [textNode ''B'']),
                   Single (paragraphNode [textNode ''C''])]"

definition ex_units_AXC :: "nodelike list" where
  "ex_units_AXC = [Single (paragraphNode [textNode ''A'']), Single (paragraphNode [textNode ''X'']),
                   Single (paragraphNode [textNode ''C''])]"

definition ex_units_AB :: "nodelike list" where
  "ex_units_AB = [Single (paragraphNode [textNode ''A'']), Single (paragraphNode [textNode ''B''])]"

definition ex_units_XY :: "nodelike list" where
  "ex_units_XY = [Single (paragraphNode [textNode ''X'']), Single (paragraphNode [textNode ''Y''])]"

text \<open>
  The run the matcher is specified to build for an old start index: it starts at the first
  new index whose unit equals the old unit, its units are pairwise equal, and it stops only
  at the end of a list or at the first unequal pair. \<open>runAt\<close> is the list of results one
  iteration of the outer loop of \<open>matchNodes\<close> appends.
\<close>

definition isGreedyRun :: "nodelike list \<Rightarrow> nodelike list \<Rightarrow> MatchResult \<Rightarrow> bool" where
  "isGreedyRun oldChildren newChildren m =
     (let i = oldStartIndex m; j = newStartIndex m; k = count m
      in i < length oldChildren \<and> j < length newChildren \<and>
         isNodeLikeEqual (newChildren ! j) (oldChildren ! i) \<and>
         (\<forall>j' < j. \<not> isNodeLikeEqual (newChildren ! j') (oldChildren ! i)) \<and>
         1 \<le> k \<and> oldEndIndex m = i + k \<and> newEndIndex m = j + k \<and>
         i + k \<le> length oldChildren \<and> j + k \<le> length newChildren \<and>
         (\<forall>d < k. isNodeLikeEqual (newChildren ! (j + d)) (oldChildren ! (i + d))) \<and>
         (i + k < length oldChildren \<and> j + k < length newChildren \<longrightarrow>
            \<not> isNodeLikeEqual (newChildren ! (j + k)) (oldChildren ! (i + k))))"

definition hasEqualUnit :: "nodelike list \<Rightarrow> nodelike \<Rightarrow> bool" where
  "hasEqualUnit newChildren u = (\<exists>j < length newChildren. isNodeLikeEqual (newChildren ! j) u)"

definition runAt :: "nodelike list \<Rightarrow> nodelike list \<Rightarrow> nat \<Rightarrow> MatchResult list" where
  "runAt oldChildren newChildren i =
     (case findMatchNode newChildren (oldChildren ! i) 0 of
        None \<Rightarrow> []
      | Some j \<Rightarrow>
          (case extendMatch oldChildren newChildren (i + 1) (j + 1) of
             (oldEnd, newEnd) \<Rightarrow>
               [\<lparr>oldStartIndex = i, newStartIndex = j, oldEndIndex = oldEnd,
                 newEndIndex = newEnd, count = newEnd - j\<rparr>]))"

definition ruleNode :: node where
  "ruleNode = Node ''horizontal_rule'' [] [] [] None"

definition ex_units_IR :: "nodelike list" where
  "ex_units_IR = [Single imageNode, Single ruleNode]"

definition ex_units_RI :: "nodelike list" where
  "ex_units_RI = [Single ruleNode, Single imageNode]"

definition ex_run_first :: MatchResult where
  "ex_run_first = \<lparr>oldStartIndex = 0, newStartIndex = 1, oldEndIndex = 1, newEndIndex = 2, count = 1\<rparr>"

definition ex_run_second :: MatchResult where
  "ex_run_second = \<lparr>oldStartIndex = 1, newStartIndex = 0, oldEndIndex = 2, newEndIndex = 1, count = 1\<rparr>"

text \<open>Whether any node of a tree carries a mark of type \<open>diffMark\<close>.\<close>

fun hasDiffMark :: "node \<Rightarrow> bool" where
  "hasDiffMark (Node t as ms cs x) =
     ((\<exists>m \<in> set ms. mark_type m = ''diffMark'') \<or> (\<exists>c \<in> set cs. hasDiffMark c))"

definition ex_doc :: node where
  "ex_doc = docNode [paragraphNode [textNode ''Hello world.''], imageNode]"

text \<open>
  For the text diff engine: the invariant of the interning state of \<open>sentencesToChars\<close>
  (the array has no duplicates and the hash maps exactly its entries to their indices), a
  code that decodes to a sentence, the nodes the engine emits for one diff segment, and
  the texts that \<open>tokenizeSentences\<close> splits without dropping a code unit.
\<close>

definition lineInv :: "lineState \<Rightarrow> bool" where
  "lineInv st =
     (case st of (lineArray, lineHash, lineStart) \<Rightarrow>
        lineStart = length lineArray \<and> distinct lineArray \<and>
        (\<forall>s. (lineHash s = None) = (s \<notin> set lineArray)) \<and>
        (\<forall>s i. lineHash s = Some i \<longrightarrow> i < length lineArray \<and> lineArray ! i = s))"

definition decodes :: "jsstring list \<Rightarrow> jschar \<Rightarrow> jsstring \<Rightarrow> bool" where
  "decodes lineArray c line = (\<exists>i. c = of_nat i \<and> i < length lineArray \<and> lineArray ! i = line)"

definition marksFor :: "DiffTypeValue \<Rightarrow> mark list" where
  "marksFor ty = (if ty \<noteq> Unchanged then [diffMarkOf ty] else [])"

definition segmentNodes :: "jsstring list \<Rightarrow> DiffTypeValue \<times> jsstring \<Rightarrow> node list" where
  "segmentNodes lineArray d =
     map (\<lambda>s. createTextNode s (marksFor (fst d))) (charsToSentences lineArray (snd d))"

definition lossless :: "jsstring \<Rightarrow> bool" where
  "lossless t = (concat (tokenizeSentences t) = t)"

definition ex_old_text :: "node list" where
  "ex_old_text = [textNode ''The cat sat. '']"

definition ex_new_text :: "node list" where
  "ex_new_text = [textNode ''The cat '', textNode ''sat. It purred.'']"

definition ex_ellipsis :: "node list" where
  "ex_ellipsis = [textNode ''Hi. ...there'']"

section \<open>The patcher never throws on nodes of equal type\<close>

lemma mapM_err_map:
  "(\<And>x. x \<in> set xs \<Longrightarrow> f x = Inr (g x)) \<Longrightarrow> mapM_err f xs = Inr (map g xs)"
  by (induction xs) auto

lemma mapM_err_ok:
  "(\<And>x. x \<in> set xs \<Longrightarrow> \<exists>y. f x = Inr y) \<Longrightarrow> \<exists>ys. mapM_err f xs = Inr ys"
proof (induction xs)
  case Nil
  then show ?case by simp
next
  case (Cons x xs)
  from Cons.prems [of x] obtain y where "f x = Inr y" by auto
  moreover from Cons.IH Cons.prems obtain ys where "mapM_err f xs = Inr ys" by auto
  ultimately show ?case by simp
qed

lemma createDiffMark_ok:
  "A \<noteq> Unchanged \<Longrightarrow> createDiffMark A = Inr (Mark ''diffMark'' [(''type'', JNum (DiffType_num A))])"
  by (cases A) (simp_all add: createDiffMark_def schema_mark_def)

lemma mapDocumentNode_Node:
  "mapDocumentNode mapper (Node t as ms cs x) =
     (case mapM_err (mapDocumentNode mapper) cs of
        Inl e \<Rightarrow> Inl e
      | Inr children \<Rightarrow>
          (case mapper (Node t as ms children x) of
             Inl e \<Rightarrow> Inl e
           | Inr None \<Rightarrow> Inr (Node t as ms children x)
           | Inr (Some r) \<Rightarrow> Inr r))"
  by (subst mapDocumentNode.simps) (simp add: node_copy_def Let_def split: sum.splits option.splits)

lemma diffNodeMapper_ok: "A \<noteq> Unchanged \<Longrightarrow> \<exists>r. diffNodeMapper A n = Inr (Some r)"
  by (simp add: diffNodeMapper_def createDiffMark_ok)

lemma createDiffNode_ok: "A \<noteq> Unchanged \<Longrightarrow> \<exists>r. createDiffNode n A = Inr r"
  unfolding createDiffNode_def
proof (induction n)
  case (Node t as ms cs x)
  have "\<exists>ys. mapM_err (mapDocumentNode (diffNodeMapper A)) cs = Inr ys"
    by (rule mapM_err_ok) (use Node in auto)
  then obtain ys where ys: "mapM_err (mapDocumentNode (diffNodeMapper A)) cs = Inr ys" ..
  from diffNodeMapper_ok [OF Node.prems] obtain r
    where "diffNodeMapper A (Node t as ms ys x) = Inr (Some r)" by blast
  with ys show ?case by (simp add: mapDocumentNode_Node)
qed

lemma diffNodes_ok: "A \<noteq> Unchanged \<Longrightarrow> \<exists>r. diffNodes A us = Inr r"
  unfolding diffNodes_def by (rule mapM_err_ok) (rule createDiffNode_ok)

lemma sentenceNode_ok: "\<exists>r. sentenceNode ty s = Inr r"
  by (cases ty) (simp_all add: sentenceNode_def createDiffMark_ok)

lemma patchTextNodes_ok: "\<exists>r. patchTextNodes dmp a b = Inr r"
proof -
  have "\<exists>r. mapM_err (\<lambda>(ty, sentences). mapM_err (sentenceNode ty) sentences) ds = Inr r" for ds
    by (rule mapM_err_ok) (auto intro: mapM_err_ok sentenceNode_ok)
  then show ?thesis
    unfolding patchTextNodes_def Let_def
    by (auto split: prod.splits sum.splits) (metis sum.distinct(1))
qed

lemma patchOk_mono:
  "patchOk patch os ns \<Longrightarrow> set os' \<subseteq> set os \<Longrightarrow> set ns' \<subseteq> set ns \<Longrightarrow> patchOk patch os' ns'"
  unfolding patchOk_def by blast

lemma not_Inl_ok: "(\<And>e. x \<noteq> Inl e) \<Longrightarrow> \<exists>r. x = Inr r"
  by (cases x) auto

lemma createDiffNode_not_Inl [simp]:
  "createDiffNode n Deleted \<noteq> Inl e" "createDiffNode n Inserted \<noteq> Inl e"
  using createDiffNode_ok [of Deleted n] createDiffNode_ok [of Inserted n] by auto

lemma diffNodes_not_Inl [simp]:
  "diffNodes Deleted us \<noteq> Inl e" "diffNodes Inserted us \<noteq> Inl e"
  using diffNodes_ok [of Deleted us] diffNodes_ok [of Inserted us] by auto

lemma patchTextNodes_not_Inl [simp]: "patchTextNodes dmp a b \<noteq> Inl e"
  using patchTextNodes_ok [of dmp a b] by auto

lemma patchRemainStep_ok:
  assumes g: "remainGuard oldChildren newChildren st"
    and ok: "patchOk patch oldChildren newChildren"
  shows "\<exists>st'. patchRemainStep patch dmp oldChildren newChildren st = Inr st'"
proof (rule not_Inl_ok)
  fix e
  from g have l: "rs_left st < length oldChildren" "rs_left st < length newChildren"
    and r: "length oldChildren - Suc (rs_right st) < length oldChildren"
      "length newChildren - Suc (rs_right st) < length newChildren"
    by (auto simp: remainGuard_def)
  have L: False
    if "patch oldN newN = Inl e'" "oldChildren ! rs_left st = Single oldN"
      "newChildren ! rs_left st = Single newN" "node_type oldN = node_type newN"
    for oldN newN e'
    using ok that l unfolding patchOk_def by (metis nth_mem sum.distinct(1))
  have R: False
    if "patch oldN newN = Inl e'" "oldChildren ! (length oldChildren - Suc (rs_right st)) = Single oldN"
      "newChildren ! (length newChildren - Suc (rs_right st)) = Single newN"
      "node_type oldN = node_type newN"
    for oldN newN e'
    using ok that r unfolding patchOk_def by (metis nth_mem sum.distinct(1))
  show "patchRemainStep patch dmp oldChildren newChildren st \<noteq> Inl e"
    unfolding patchRemainStep_def Let_def
    by (auto simp: isArray_def computeChildEqualityFactor_def
        split: nodelike.splits sum.splits if_splits dest: L R)
qed

lemma patchRemainLoop_ok:
  assumes "patchOk patch oldChildren newChildren"
  shows "\<exists>st'. patchRemainLoop patch dmp oldChildren newChildren st = Inr st'"
  using assms
proof (induction patch dmp oldChildren newChildren st rule: patchRemainLoop.induct)
  case (1 patch dmp oldChildren newChildren st)
  show ?case
  proof (cases "remainGuard oldChildren newChildren st")
    case True
    from patchRemainStep_ok [OF True "1.prems"] obtain st1
      where st1: "patchRemainStep patch dmp oldChildren newChildren st = Inr st1" by blast
    from "1.IH" [OF True st1 "1.prems"] True st1 show ?thesis
      by (simp add: patchRemainLoop.simps [of _ _ _ _ st])
  next
    case False
    then show ?thesis by (simp add: patchRemainLoop.simps [of _ _ _ _ st])
  qed
qed

lemma patchRemainNodes_ok:
  assumes "patchOk patch oldChildren newChildren"
  shows "\<exists>r. patchRemainNodes patch dmp oldChildren newChildren = Inr r"
proof (rule not_Inl_ok)
  fix e
  from patchRemainLoop_ok [OF assms] obtain st
    where st: "patchRemainLoop patch dmp oldChildren newChildren
      \<lparr>rs_left = 0, rs_right = 0, rs_finalLeft = [], rs_finalRight = []\<rparr> = Inr st" by blast
  then show "patchRemainNodes patch dmp oldChildren newChildren \<noteq> Inl e"
    unfolding patchRemainNodes_def Let_def by (simp split: sum.splits)
qed

lemma patchChildren_ok:
  assumes ok: "patchOk patch oldChildren newChildren"
  shows "\<exists>r. patchChildren patch dmp oldChildren newChildren = Inr r"
proof (rule not_Inl_ok)
  fix e
  have sub: "patchRemainNodes patch dmp os ns \<noteq> Inl e'"
    if "set os \<subseteq> set oldChildren" "set ns \<subseteq> set newChildren" for os ns e'
    using patchRemainNodes_ok [OF patchOk_mono [OF ok that], of dmp] by auto
  have s0: "set (slice oldChildren a b) \<subseteq> set oldChildren"
    "set (slice newChildren a b) \<subseteq> set newChildren" for a b
    by (rule set_slice_subset)+
  have s1: "set (slice (slice oldChildren a b) c d) \<subseteq> set oldChildren"
    "set (slice (slice newChildren a b) c d) \<subseteq> set newChildren" for a b c d
    using set_slice_subset by (meson subset_trans)+
  have s3: "set (drop c (slice oldChildren a b)) \<subseteq> set oldChildren"
    "set (drop c (slice newChildren a b)) \<subseteq> set newChildren" for a b c
    using set_slice_subset set_drop_subset by (meson subset_trans)+
  show "patchChildren patch dmp oldChildren newChildren \<noteq> Inl e"
    unfolding patchChildren_def Let_def
    by (simp add: sub s0 s1 s3 split: prod.splits option.splits sum.splits)
qed

lemma patchDocumentNode_ok:
  "node_type oldNode = node_type newNode \<Longrightarrow> \<exists>r. patchDocumentNode dmp oldNode newNode = Inr r"
proof (induction dmp oldNode newNode rule: patchDocumentNode.induct)
  case (1 dmp oldNode newNode)
  from "1.prems" have a: "assertNodeTypeEqual oldNode newNode = Inr ()"
    by (simp add: assertNodeTypeEqual_def)
  have "patchOk (\<lambda>oldN newN. patchDocumentNode dmp oldN newN)
          (normalizeNodeContent oldNode) (normalizeNodeContent newNode)"
    unfolding patchOk_def using "1.IH" [OF a] by blast
  from patchChildren_ok [OF this] obtain cs where
    "patchChildren (\<lambda>oldN newN. patchDocumentNode dmp oldN newN) dmp
       (normalizeNodeContent oldNode) (normalizeNodeContent newNode) = Inr cs" by blast
  with a show ?case
    by (subst patchDocumentNode.simps) (simp add: createNewNode_def)
qed

lemma patchDocumentNode_result:
  "patchDocumentNode dmp oldNode newNode = Inr r \<Longrightarrow>
   \<exists>children. r = Node (node_type oldNode) (node_attrs oldNode) (node_marks oldNode) children None"
  by (subst (asm) patchDocumentNode.simps)
     (auto simp: createNewNode_def type_create_def split: sum.splits)

section \<open>Diff annotator: the annotated copy\<close>

lemma diffNodeMapper_text:
  "A \<noteq> Unchanged \<Longrightarrow> diffNodeMapper A (Node ''text'' as ms cs x) =
     Inr (Some (Node ''text'' [] (ms @ [Mark ''diffMark'' [(''type'', JNum (DiffType_num A))]]) []
                 (Some (case x of None \<Rightarrow> [] | Some s \<Rightarrow> s))))"
  by (simp add: diffNodeMapper_def isTextNode_def createDiffMark_ok createTextNode_def
      schema_text_def getNodeText_def)

lemma diffNodeMapper_other:
  "t \<noteq> ''text'' \<Longrightarrow> diffNodeMapper A (Node t as ms cs x) = Inr (Some (Node t as ms cs x))"
  by (simp add: diffNodeMapper_def isTextNode_def)

lemma mapDocumentNode_annotated:
  "A \<noteq> Unchanged \<Longrightarrow> wellFormed n \<Longrightarrow> mapDocumentNode (diffNodeMapper A) n = Inr (annotated A n)"
proof (induction n)
  case (Node t as ms cs x)
  show ?case
  proof (cases "t = ''text''")
    case True
    with Node.prems obtain s where "as = []" "cs = []" "x = Some s" by auto
    with True Node.prems(1) show ?thesis
      by (simp add: mapDocumentNode_Node diffNodeMapper_text)
  next
    case False
    have "mapM_err (\<lambda>c. mapDocumentNode (diffNodeMapper A) c) cs = Inr (map (annotated A) cs)"
    proof (rule mapM_err_map)
      fix c assume c: "c \<in> set cs"
      with Node.prems False have "wellFormed c" by (simp add: list_all_iff)
      with Node.IH c Node.prems(1) show "mapDocumentNode (diffNodeMapper A) c = Inr (annotated A c)" by simp
    qed
    with False show ?thesis
      by (simp add: mapDocumentNode_Node diffNodeMapper_other)
  qed
qed

text \<open>
  C7. For a node of the data model (text leaves carry text, no attributes and no
  children) and an annotation Inserted or Deleted, \<open>createDiffNode\<close> returns the copy of
  the subtree in which every text leaf has its mark list extended at the end by one diff
  mark of that annotation and every other node keeps its type, attributes and marks, with
  its children annotated likewise.
\<close>

theorem createDiffNode_annotates:
  "A \<noteq> Unchanged \<Longrightarrow> wellFormed N \<Longrightarrow> createDiffNode N A = Inr (annotated A N)"
  unfolding createDiffNode_def by (rule mapDocumentNode_annotated)

theorem createDiffNode_annotates_witness:
  "Deleted \<noteq> Unchanged \<and> wellFormed ex_par \<and>
   createDiffNode ex_par Deleted = Inr (Node ''paragraph'' [(''align'', JStr (js ''left''))] []
     [Node ''text'' [] [Mark ''bold'' [], Mark ''diffMark'' [(''type'', JNum (- 1))]] [] (Some (js ''Hi'')),
      Node ''image'' [] [] [] None] None)"
  using createDiffNode_annotates [of Deleted ex_par] by (simp add: ex_par_def imageNode_def)

section \<open>Tree patcher: contract and frame\<close>

text \<open>
  C5. On two nodes whose types differ \<open>patchDocumentNode\<close> fails with the error that
  names both types; it returns no tree.
\<close>

theorem patchDocumentNode_type_mismatch:
  "node_type oldNode \<noteq> node_type newNode \<Longrightarrow>
   patchDocumentNode dmp oldNode newNode
     = Inl (NodeTypeNotEqual (node_type oldNode) (node_type newNode))"
  by (subst patchDocumentNode.simps) (simp add: assertNodeTypeEqual_def)

theorem patchDocumentNode_type_mismatch_witness:
  "node_type (docNode [paragraphNode [textNode ''A'']]) \<noteq> node_type (paragraphNode [textNode ''A'']) \<and>
   patchDocumentNode prefix_diff (docNode [paragraphNode [textNode ''A'']]) (paragraphNode [textNode ''A''])
     = Inl (NodeTypeNotEqual ''doc'' ''paragraph'')"
  using patchDocumentNode_type_mismatch
    [of "docNode [paragraphNode [textNode ''A'']]" "paragraphNode [textNode ''A'']" prefix_diff]
  by (simp add: docNode_def paragraphNode_def)

text \<open>
  C9. On two nodes of the same type \<open>patchDocumentNode\<close> returns a node, and that node
  has the old node's type, attributes and marks; only the children are new.
\<close>

theorem patchDocumentNode_keeps_type_attrs_marks:
  "node_type oldNode = node_type newNode \<Longrightarrow>
   \<exists>children. patchDocumentNode dmp oldNode newNode
     = Inr (Node (node_type oldNode) (node_attrs oldNode) (node_marks oldNode) children None)"
  using patchDocumentNode_ok [of oldNode newNode dmp] patchDocumentNode_result [of dmp oldNode newNode]
  by auto

theorem patchDocumentNode_keeps_type_attrs_marks_witness:
  "node_type ex_par = node_type (paragraphNode [textNode ''Ho'']) \<and>
   (\<exists>children. patchDocumentNode prefix_diff ex_par (paragraphNode [textNode ''Ho''])
     = Inr (Node ''paragraph'' [(''align'', JStr (js ''left''))] [] children None))"
  using patchDocumentNode_keeps_type_attrs_marks [of ex_par "paragraphNode [textNode ''Ho'']" prefix_diff]
  by (simp add: ex_par_def paragraphNode_def)

section \<open>Trimming and the residual loop\<close>

lemma prefixTrim_bound:
  "left \<le> min (length oldChildren) (length newChildren) \<Longrightarrow>
   fst (prefixTrim oldChildren newChildren left acc) \<le> min (length oldChildren) (length newChildren)"
proof (induction oldChildren newChildren left acc rule: prefixTrim.induct)
  case (1 oldChildren newChildren left acc)
  then show ?case
    by (subst prefixTrim.simps) auto
qed

lemma suffixTrim_bound:
  "right + left < min (length oldChildren) (length newChildren) \<Longrightarrow>
   fst (suffixTrim oldChildren newChildren left right acc) + left
     < min (length oldChildren) (length newChildren)"
proof (induction oldChildren newChildren left right acc rule: suffixTrim.induct)
  case (1 oldChildren newChildren left right acc)
  then show ?case
    by (subst suffixTrim.simps) auto
qed

lemma suffixTrim_exhausted:
  "min (length oldChildren) (length newChildren) \<le> right + left \<Longrightarrow>
   suffixTrim oldChildren newChildren left right acc = (right, acc)"
  by (subst suffixTrim.simps) auto

lemma slice_nonempty: "a < b \<Longrightarrow> b \<le> length xs \<Longrightarrow> slice xs a b \<noteq> []"
  by (simp add: slice_def)

text \<open>
  C8. The prefix trim and the suffix trim never overlap: together they consume at most
  the shorter children list, and when the prefix trim stops before the end of the shorter
  list, the guard \<open>right + left + 1 < minChildLen\<close> leaves at least one unit of each side
  in the middle slice.
\<close>

theorem trims_never_overlap:
  "trimLeft oldChildren newChildren + trimRight oldChildren newChildren
     \<le> min (length oldChildren) (length newChildren) \<and>
   (trimLeft oldChildren newChildren < min (length oldChildren) (length newChildren) \<longrightarrow>
      trimLeft oldChildren newChildren + trimRight oldChildren newChildren
        < min (length oldChildren) (length newChildren) \<and>
      slice oldChildren (trimLeft oldChildren newChildren)
        (length oldChildren - trimRight oldChildren newChildren) \<noteq> [] \<and>
      slice newChildren (trimLeft oldChildren newChildren)
        (length newChildren - trimRight oldChildren newChildren) \<noteq> [])"
proof -
  let ?l = "trimLeft oldChildren newChildren" and ?r = "trimRight oldChildren newChildren"
  let ?m = "min (length oldChildren) (length newChildren)"
  have l: "?l \<le> ?m"
    unfolding trimLeft_def by (rule prefixTrim_bound) simp
  show ?thesis
  proof (cases "?l < ?m")
    case True
    then have "?r + ?l < ?m"
      unfolding trimRight_def by (intro suffixTrim_bound) simp
    moreover from this have "slice oldChildren ?l (length oldChildren - ?r) \<noteq> []"
      "slice newChildren ?l (length newChildren - ?r) \<noteq> []"
      by (auto simp: slice_def)
    ultimately show ?thesis by simp
  next
    case False
    with l have "?l = ?m" by linarith
    then have "?r = 0"
      unfolding trimRight_def by (simp add: suffixTrim_exhausted)
    with l False show ?thesis by auto
  qed
qed

lemma patchRemainStep_group_single:
  assumes "leftOld oldChildren st = Group g" "leftNew newChildren st = Single n"
    and "\<not> updatable (rightOld oldChildren st) (rightNew newChildren st)"
  shows "patchRemainStep patch dmp oldChildren newChildren st =
     (case createDiffNode n Inserted of
        Inl e \<Rightarrow> Inl e
      | Inr d \<Rightarrow> Inr (st\<lparr>rs_left := rs_left st + 1, rs_finalLeft := rs_finalLeft st @ [d]\<rparr>))"
  using assms unfolding patchRemainStep_def Let_def updatable_def leftOld_def leftNew_def
    rightOld_def rightNew_def
  by (auto simp: isArray_def split: sum.splits)

lemma patchRemainStep_single_group:
  assumes "leftOld oldChildren st = Single n" "leftNew newChildren st = Group g"
    and "\<not> updatable (rightOld oldChildren st) (rightNew newChildren st)"
  shows "patchRemainStep patch dmp oldChildren newChildren st =
     (case createDiffNode n Deleted of
        Inl e \<Rightarrow> Inl e
      | Inr d \<Rightarrow> Inr (st\<lparr>rs_left := rs_left st + 1, rs_finalLeft := rs_finalLeft st @ [d]\<rparr>))"
  using assms unfolding patchRemainStep_def Let_def updatable_def leftOld_def leftNew_def
    rightOld_def rightNew_def
  by (auto simp: isArray_def split: sum.splits)

lemma patchRemainStep_both_updatable:
  assumes "updatable (leftOld oldChildren st) (leftNew newChildren st)"
    and "updatable (rightOld oldChildren st) (rightNew newChildren st)"
    and "\<not> (isArray (leftOld oldChildren st) \<and> isArray (leftNew newChildren st))"
  shows "\<exists>oldN newN. leftOld oldChildren st = Single oldN \<and> leftNew newChildren st = Single newN \<and>
     patchRemainStep patch dmp oldChildren newChildren st =
       (case patch oldN newN of
          Inl e \<Rightarrow> Inl e
        | Inr r \<Rightarrow> Inr (st\<lparr>rs_left := rs_left st + 1, rs_finalLeft := rs_finalLeft st @ [r]\<rparr>))"
proof -
  from assms(1,3) obtain oldN newN
    where s: "leftOld oldChildren st = Single oldN" "leftNew newChildren st = Single newN"
    by (cases "leftOld oldChildren st"; cases "leftNew newChildren st")
       (auto simp: updatable_def isArray_def)
  with assms show ?thesis
    unfolding patchRemainStep_def Let_def updatable_def leftOld_def leftNew_def
      rightOld_def rightNew_def
    by (simp add: isArray_def computeChildEqualityFactor_def split: sum.splits)
qed

text \<open>
  The pointers of the loop never pass the end of the shorter list, so the lengths
  \<open>deleteNodeLen\<close> and \<open>insertNodeLen\<close> computed after it are not negative.
\<close>

lemma patchRemainLoop_bounds:
  "patchRemainLoop patch dmp oldChildren newChildren st = Inr st' \<Longrightarrow>
   rs_left st + rs_right st \<le> min (length oldChildren) (length newChildren) \<Longrightarrow>
   rs_left st' + rs_right st' \<le> min (length oldChildren) (length newChildren)"
proof (induction patch dmp oldChildren newChildren st rule: patchRemainLoop.induct)
  case (1 patch dmp oldChildren newChildren st)
  show ?case
  proof (cases "remainGuard oldChildren newChildren st")
    case True
    with "1.prems"(1) obtain st1
      where s: "patchRemainStep patch dmp oldChildren newChildren st = Inr st1"
        and l: "patchRemainLoop patch dmp oldChildren newChildren st1 = Inr st'"
      by (auto simp: patchRemainLoop.simps [of _ _ _ _ st] split: sum.splits)
    from patchRemainStep_advances [OF s] True
    have "rs_left st1 + rs_right st1 \<le> min (length oldChildren) (length newChildren)"
      by (auto simp: remainGuard_def)
    with "1.IH" [OF True s l] show ?thesis .
  next
    case False
    with "1.prems" show ?thesis
      by (simp add: patchRemainLoop.simps [of _ _ _ _ st])
  qed
qed

lemma patchRemainStep_one_pointer:
  "patchRemainStep patch dmp oldChildren newChildren st = Inr st' \<Longrightarrow>
   (rs_left st' = rs_left st + 1 \<and> rs_right st' = rs_right st) \<or>
   (rs_left st' = rs_left st \<and> rs_right st' = rs_right st + 1)"
  unfolding patchRemainStep_def Let_def
  by (auto split: if_splits sum.splits nodelike.splits prod.splits)

lemma isNodeEqual_examples:
  "isNodeEqual (paragraphNode [textNode ''A'']) (paragraphNode [textNode ''A''])"
  "isNodeEqual (paragraphNode [textNode ''C'']) (paragraphNode [textNode ''C''])"
  "\<not> isNodeEqual (paragraphNode [textNode ''B'']) (paragraphNode [textNode ''X''])"
  by (simp_all add: paragraphNode_def textNode_def attrsEqual_def js_def)

lemma ex_trimLeft: "trimLeft ex_units_ABC ex_units_AXC = 1"
  by (simp add: trimLeft_def ex_units_ABC_def ex_units_AXC_def prefixTrim.simps isNodeEqual_examples)

lemma ex_trimRight: "trimRight ex_units_ABC ex_units_AXC = 1"
  by (simp add: trimRight_def ex_trimLeft)
     (simp add: ex_units_ABC_def ex_units_AXC_def suffixTrim.simps isNodeEqual_examples)

theorem trims_never_overlap_witness:
  "trimLeft ex_units_ABC ex_units_AXC < min (length ex_units_ABC) (length ex_units_AXC) \<and>
   trimLeft ex_units_ABC ex_units_AXC + trimRight ex_units_ABC ex_units_AXC
     < min (length ex_units_ABC) (length ex_units_AXC) \<and>
   slice ex_units_ABC 1 2 \<noteq> [] \<and> slice ex_units_AXC 1 2 \<noteq> []"
  using trims_never_overlap [of ex_units_ABC ex_units_AXC]
  by (simp add: ex_trimLeft ex_trimRight) (simp add: ex_units_ABC_def ex_units_AXC_def slice_def)

text \<open>
  C10. In an iteration of \<open>patchRemainNodes\<close> whose left pair is a text-run group on one
  side and a single node on the other, with the right pair not updatable, the
  delete-and-insert branch appends exactly one node to the left accumulator, the annotated
  copy of the single node (Inserted when it is the new side, Deleted when it is the old
  side); nothing is emitted for the group, and the right accumulator is untouched.
\<close>

theorem patchRemainStep_drops_group_side:
  "\<not> updatable (rightOld oldChildren st) (rightNew newChildren st) \<Longrightarrow>
   (leftOld oldChildren st = Group g \<and> leftNew newChildren st = Single n \<longrightarrow>
      (\<exists>d. createDiffNode n Inserted = Inr d \<and>
           patchRemainStep patch dmp oldChildren newChildren st
             = Inr (st\<lparr>rs_left := rs_left st + 1, rs_finalLeft := rs_finalLeft st @ [d]\<rparr>))) \<and>
   (leftOld oldChildren st = Single n \<and> leftNew newChildren st = Group g \<longrightarrow>
      (\<exists>d. createDiffNode n Deleted = Inr d \<and>
           patchRemainStep patch dmp oldChildren newChildren st
             = Inr (st\<lparr>rs_left := rs_left st + 1, rs_finalLeft := rs_finalLeft st @ [d]\<rparr>)))"
proof (intro conjI impI; elim conjE)
  assume r: "\<not> updatable (rightOld oldChildren st) (rightNew newChildren st)"
    and l: "leftOld oldChildren st = Group g" "leftNew newChildren st = Single n"
  from createDiffNode_ok [of Inserted n] obtain d where d: "createDiffNode n Inserted = Inr d" by auto
  with patchRemainStep_group_single [OF l r, of patch dmp]
  show "\<exists>d. createDiffNode n Inserted = Inr d \<and>
           patchRemainStep patch dmp oldChildren newChildren st
             = Inr (st\<lparr>rs_left := rs_left st + 1, rs_finalLeft := rs_finalLeft st @ [d]\<rparr>)"
    by simp
next
  assume r: "\<not> updatable (rightOld oldChildren st) (rightNew newChildren st)"
    and l: "leftOld oldChildren st = Single n" "leftNew newChildren st = Group g"
  from createDiffNode_ok [of Deleted n] obtain d where d: "createDiffNode n Deleted = Inr d" by auto
  with patchRemainStep_single_group [OF l r, of patch dmp]
  show "\<exists>d. createDiffNode n Deleted = Inr d \<and>
           patchRemainStep patch dmp oldChildren newChildren st
             = Inr (st\<lparr>rs_left := rs_left st + 1, rs_finalLeft := rs_finalLeft st @ [d]\<rparr>)"
    by simp
qed

lemma createDiffNode_imageNode: "createDiffNode imageNode A = Inr imageNode"
  by (simp add: createDiffNode_def imageNode_def mapDocumentNode_Node diffNodeMapper_other)

theorem patchRemainStep_drops_group_side_witness:
  "\<not> updatable (rightOld [Group [textNode ''Hello'']] remainStart)
                 (rightNew [Single imageNode] remainStart) \<and>
   leftOld [Group [textNode ''Hello'']] remainStart = Group [textNode ''Hello''] \<and>
   leftNew [Single imageNode] remainStart = Single imageNode \<and>
   patchRemainStep (patchDocumentNode prefix_diff) prefix_diff
       [Group [textNode ''Hello'']] [Single imageNode] remainStart
     = Inr \<lparr>rs_left = 1, rs_right = 0, rs_finalLeft = [imageNode], rs_finalRight = []\<rparr>"
  using patchRemainStep_drops_group_side
    [of "[Group [textNode ''Hello'']]" remainStart "[Single imageNode]" "[textNode ''Hello'']"
        imageNode "patchDocumentNode prefix_diff" prefix_diff]
  by (simp add: updatable_def rightOld_def rightNew_def leftOld_def leftNew_def remainStart_def
      createDiffNode_imageNode)

text \<open>
  C6. \<open>computeChildEqualityFactor\<close> is 0 on all inputs. When the left and the right pair
  are both updatable, the iteration patches the left pair and leaves the right pointer and
  the right accumulator as they were. Every iteration returns and moves exactly one of the
  two pointers by one. \<open>patchRemainNodes\<close> returns a list of nodes on all inputs.
\<close>

theorem patchRemainNodes_forward_progress:
  "computeChildEqualityFactor node1 node2 = 0 \<and>
   (updatable (leftOld oldChildren st) (leftNew newChildren st) \<and>
    updatable (rightOld oldChildren st) (rightNew newChildren st) \<and>
    \<not> (isArray (leftOld oldChildren st) \<and> isArray (leftNew newChildren st)) \<longrightarrow>
      (\<exists>oldN newN r. leftOld oldChildren st = Single oldN \<and> leftNew newChildren st = Single newN \<and>
         patchDocumentNode dmp oldN newN = Inr r \<and>
         patchRemainStep (patchDocumentNode dmp) dmp oldChildren newChildren st
           = Inr (st\<lparr>rs_left := rs_left st + 1, rs_finalLeft := rs_finalLeft st @ [r]\<rparr>))) \<and>
   (remainGuard oldChildren newChildren st \<longrightarrow>
      (\<exists>st'. patchRemainStep (patchDocumentNode dmp) dmp oldChildren newChildren st = Inr st' \<and>
         ((rs_left st' = rs_left st + 1 \<and> rs_right st' = rs_right st) \<or>
          (rs_left st' = rs_left st \<and> rs_right st' = rs_right st + 1)))) \<and>
   (\<exists>r. patchRemainNodes (patchDocumentNode dmp) dmp oldChildren newChildren = Inr r)"
proof (intro conjI impI)
  show "computeChildEqualityFactor node1 node2 = 0"
    by (simp add: computeChildEqualityFactor_def)
next
  assume a: "updatable (leftOld oldChildren st) (leftNew newChildren st) \<and>
    updatable (rightOld oldChildren st) (rightNew newChildren st) \<and>
    \<not> (isArray (leftOld oldChildren st) \<and> isArray (leftNew newChildren st))"
  then obtain oldN newN
    where s: "leftOld oldChildren st = Single oldN" "leftNew newChildren st = Single newN"
      and step: "patchRemainStep (patchDocumentNode dmp) dmp oldChildren newChildren st =
       (case patchDocumentNode dmp oldN newN of
          Inl e \<Rightarrow> Inl e
        | Inr r \<Rightarrow> Inr (st\<lparr>rs_left := rs_left st + 1, rs_finalLeft := rs_finalLeft st @ [r]\<rparr>))"
    using patchRemainStep_both_updatable [of oldChildren st newChildren "patchDocumentNode dmp" dmp]
    by blast
  from a s have "node_type oldN = node_type newN" by (simp add: updatable_def)
  from patchDocumentNode_ok [OF this, of dmp] obtain r where "patchDocumentNode dmp oldN newN = Inr r"
    by blast
  with s step show "\<exists>oldN newN r. leftOld oldChildren st = Single oldN \<and>
         leftNew newChildren st = Single newN \<and>
         patchDocumentNode dmp oldN newN = Inr r \<and>
         patchRemainStep (patchDocumentNode dmp) dmp oldChildren newChildren st
           = Inr (st\<lparr>rs_left := rs_left st + 1, rs_finalLeft := rs_finalLeft st @ [r]\<rparr>)"
    by simp
next
  have ok: "patchOk (patchDocumentNode dmp) oldChildren newChildren"
    unfolding patchOk_def using patchDocumentNode_ok by blast
  {
    assume g: "remainGuard oldChildren newChildren st"
    from patchRemainStep_ok [OF g ok, of dmp] obtain st'
      where st': "patchRemainStep (patchDocumentNode dmp) dmp oldChildren newChildren st = Inr st'"
      by blast
    with patchRemainStep_one_pointer [OF st']
    show "\<exists>st'. patchRemainStep (patchDocumentNode dmp) dmp oldChildren newChildren st = Inr st' \<and>
         ((rs_left st' = rs_left st + 1 \<and> rs_right st' = rs_right st) \<or>
          (rs_left st' = rs_left st \<and> rs_right st' = rs_right st + 1))"
      by blast
  }
  from patchRemainNodes_ok [OF ok]
  show "\<exists>r. patchRemainNodes (patchDocumentNode dmp) dmp oldChildren newChildren = Inr r" .
qed

theorem patchRemainNodes_forward_progress_witness:
  "updatable (leftOld ex_units_AB remainStart) (leftNew ex_units_XY remainStart) \<and>
   updatable (rightOld ex_units_AB remainStart) (rightNew ex_units_XY remainStart) \<and>
   \<not> (isArray (leftOld ex_units_AB remainStart) \<and> isArray (leftNew ex_units_XY remainStart)) \<and>
   remainGuard ex_units_AB ex_units_XY remainStart \<and>
   (\<exists>r. patchDocumentNode prefix_diff (paragraphNode [textNode ''A'']) (paragraphNode [textNode ''X'']) = Inr r \<and>
        patchRemainStep (patchDocumentNode prefix_diff) prefix_diff ex_units_AB ex_units_XY remainStart
          = Inr \<lparr>rs_left = 1, rs_right = 0, rs_finalLeft = [r], rs_finalRight = []\<rparr>) \<and>
   (\<exists>r. patchRemainNodes (patchDocumentNode prefix_diff) prefix_diff ex_units_AB ex_units_XY = Inr r)"
  using patchRemainNodes_forward_progress
    [of "Single imageNode" "Single imageNode" ex_units_AB remainStart ex_units_XY prefix_diff]
  by (simp add: updatable_def rightOld_def rightNew_def leftOld_def leftNew_def remainStart_def
      remainGuard_def isArray_def ex_units_AB_def ex_units_XY_def isTextNode_def paragraphNode_def)

section \<open>Best-run matcher: runs and the best match\<close>

lemma findMatchNode_Some:
  "findMatchNode children n i = Some j \<Longrightarrow>
   i \<le> j \<and> j < length children \<and> isNodeLikeEqual (children ! j) n \<and>
   (\<forall>k. i \<le> k \<and> k < j \<longrightarrow> \<not> isNodeLikeEqual (children ! k) n)"
proof (induction children n i rule: findMatchNode.induct)
  case (1 children n i)
  show ?case
  proof (cases "i < length children \<and> \<not> isNodeLikeEqual (children ! i) n")
    case True
    with "1.prems" have "findMatchNode children n (i + 1) = Some j"
      by (simp add: findMatchNode.simps [of children n i])
    with "1.IH" True have ih: "i + 1 \<le> j \<and> j < length children \<and> isNodeLikeEqual (children ! j) n \<and>
      (\<forall>k. i + 1 \<le> k \<and> k < j \<longrightarrow> \<not> isNodeLikeEqual (children ! k) n)" by simp
    have "\<not> isNodeLikeEqual (children ! k) n" if "i \<le> k" "k < j" for k
    proof (cases "k = i")
      case True
      with \<open>i < length children \<and> \<not> isNodeLikeEqual (children ! i) n\<close> show ?thesis by simp
    next
      case False
      with that ih show ?thesis by simp
    qed
    with ih show ?thesis by simp
  next
    case False
    with "1.prems" show ?thesis
      by (auto simp: findMatchNode.simps [of children n i] split: if_splits)
  qed
qed

lemma findMatchNode_None:
  "findMatchNode children n i = None \<Longrightarrow>
   (\<forall>k. i \<le> k \<and> k < length children \<longrightarrow> \<not> isNodeLikeEqual (children ! k) n)"
proof (induction children n i rule: findMatchNode.induct)
  case (1 children n i)
  show ?case
  proof (cases "i < length children")
    case True
    with "1.prems" have ne: "\<not> isNodeLikeEqual (children ! i) n"
      and nx: "findMatchNode children n (i + 1) = None"
      by (auto simp: findMatchNode.simps [of children n i] split: if_splits)
    from "1.IH" [OF True ne nx] have ih:
      "\<forall>k. i + 1 \<le> k \<and> k < length children \<longrightarrow> \<not> isNodeLikeEqual (children ! k) n" .
    show ?thesis
    proof (intro allI impI)
      fix k assume "i \<le> k \<and> k < length children"
      with ih ne show "\<not> isNodeLikeEqual (children ! k) n"
        by (cases "k = i") auto
    qed
  next
    case False
    then show ?thesis by auto
  qed
qed

lemma extendMatch_spec:
  "extendMatch oldChildren newChildren oldEnd newEnd = (oldEnd', newEnd') \<Longrightarrow>
   \<exists>k. oldEnd' = oldEnd + k \<and> newEnd' = newEnd + k \<and>
       (\<forall>d < k. oldEnd + d < length oldChildren \<and> newEnd + d < length newChildren \<and>
                isNodeLikeEqual (newChildren ! (newEnd + d)) (oldChildren ! (oldEnd + d))) \<and>
       \<not> (oldEnd' < length oldChildren \<and> newEnd' < length newChildren \<and>
          isNodeLikeEqual (newChildren ! newEnd') (oldChildren ! oldEnd'))"
proof (induction oldChildren newChildren oldEnd newEnd rule: extendMatch.induct)
  case (1 oldChildren newChildren oldEnd newEnd)
  let ?go = "oldEnd < length oldChildren \<and> newEnd < length newChildren \<and>
             isNodeLikeEqual (newChildren ! newEnd) (oldChildren ! oldEnd)"
  show ?case
  proof (cases ?go)
    case True
    with "1.prems" have "extendMatch oldChildren newChildren (oldEnd + 1) (newEnd + 1) = (oldEnd', newEnd')"
      by (simp add: extendMatch.simps [of oldChildren newChildren oldEnd newEnd])
    with "1.IH" True obtain k where k: "oldEnd' = oldEnd + 1 + k" "newEnd' = newEnd + 1 + k"
      "\<forall>d < k. oldEnd + 1 + d < length oldChildren \<and> newEnd + 1 + d < length newChildren \<and>
                isNodeLikeEqual (newChildren ! (newEnd + 1 + d)) (oldChildren ! (oldEnd + 1 + d))"
      "\<not> (oldEnd' < length oldChildren \<and> newEnd' < length newChildren \<and>
          isNodeLikeEqual (newChildren ! newEnd') (oldChildren ! oldEnd'))"
      by auto
    have "oldEnd + d < length oldChildren \<and> newEnd + d < length newChildren \<and>
            isNodeLikeEqual (newChildren ! (newEnd + d)) (oldChildren ! (oldEnd + d))"
      if "d < Suc k" for d
    proof (cases d)
      case 0
      with True show ?thesis by simp
    next
      case (Suc d')
      with that k(3) have "d' < k" by simp
      with k(3) Suc show ?thesis by auto
    qed
    with k(1,2,4) show ?thesis
      by (intro exI [of _ "Suc k"]) simp
  next
    case False
    with "1.prems" have "oldEnd' = oldEnd" "newEnd' = newEnd"
      by (auto simp: extendMatch.simps [of oldChildren newChildren oldEnd newEnd] split: if_splits)
    with False show ?thesis
      by (intro exI [of _ 0]) simp
  qed
qed

lemma matchNodesFrom_runs:
  "matchNodesFrom oldChildren newChildren i acc
   = acc @ concat (map (runAt oldChildren newChildren) [i..<length oldChildren])"
proof (induction oldChildren newChildren i acc rule: matchNodesFrom.induct)
  case (1 oldChildren newChildren i acc)
  show ?case
  proof (cases "i < length oldChildren")
    case True
    then have upt: "[i..<length oldChildren] = i # [i + 1..<length oldChildren]"
      by (simp add: upt_conv_Cons)
    show ?thesis
    proof (cases "findMatchNode newChildren (oldChildren ! i) 0")
      case None
      with True "1.IH"(1) [OF True None] show ?thesis
        by (simp add: matchNodesFrom.simps [of oldChildren newChildren i] upt runAt_def)
    next
      case (Some j)
      obtain oe ne where e: "extendMatch oldChildren newChildren (i + 1) (j + 1) = (oe, ne)"
        by (cases "extendMatch oldChildren newChildren (i + 1) (j + 1)") auto
      from "1.IH"(2) [OF True Some e [symmetric]] True Some e show ?thesis
        by (simp add: matchNodesFrom.simps [of oldChildren newChildren i] upt runAt_def)
    qed
  next
    case False
    then show ?thesis
      by (simp add: matchNodesFrom.simps [of oldChildren newChildren i])
  qed
qed

lemma matchNodes_runs:
  "matchNodes oldChildren newChildren
   = concat (map (runAt oldChildren newChildren) [0..<length oldChildren])"
  by (simp add: matchNodes_def matchNodesFrom_runs)

lemma runAt_greedy:
  assumes "i < length oldChildren" "m \<in> set (runAt oldChildren newChildren i)"
  shows "isGreedyRun oldChildren newChildren m \<and> oldStartIndex m = i"
proof -
  from assms(2) obtain j oe ne
    where f: "findMatchNode newChildren (oldChildren ! i) 0 = Some j"
      and e: "extendMatch oldChildren newChildren (i + 1) (j + 1) = (oe, ne)"
      and m: "m = \<lparr>oldStartIndex = i, newStartIndex = j, oldEndIndex = oe,
                   newEndIndex = ne, count = ne - j\<rparr>"
    by (auto simp: runAt_def split: option.splits prod.splits)
  from findMatchNode_Some [OF f]
  have j: "j < length newChildren" "isNodeLikeEqual (newChildren ! j) (oldChildren ! i)"
    "\<forall>k < j. \<not> isNodeLikeEqual (newChildren ! k) (oldChildren ! i)" by auto
  from extendMatch_spec [OF e] obtain k where k: "oe = i + 1 + k" "ne = j + 1 + k"
    "\<forall>d < k. i + 1 + d < length oldChildren \<and> j + 1 + d < length newChildren \<and>
       isNodeLikeEqual (newChildren ! (j + 1 + d)) (oldChildren ! (i + 1 + d))"
    "\<not> (oe < length oldChildren \<and> ne < length newChildren \<and>
        isNodeLikeEqual (newChildren ! ne) (oldChildren ! oe))"
    by auto
  have run: "isNodeLikeEqual (newChildren ! (j + d)) (oldChildren ! (i + d))" if "d < Suc k" for d
  proof (cases d)
    case 0
    with j show ?thesis by simp
  next
    case (Suc d')
    with that k(3) show ?thesis by auto
  qed
  have bound: "i + Suc k \<le> length oldChildren \<and> j + Suc k \<le> length newChildren"
  proof (cases k)
    case 0
    with assms(1) j(1) show ?thesis by simp
  next
    case (Suc k')
    with k(3) have "i + 1 + k' < length oldChildren \<and> j + 1 + k' < length newChildren" by simp
    with Suc show ?thesis by simp
  qed
  from k(1,2) have cnt: "ne - j = Suc k" by simp
  show ?thesis
    unfolding isGreedyRun_def Let_def m
    using assms(1) j k(1,2,4) run bound cnt by (simp add: ac_simps)
qed

lemma matchNodes_greedy:
  "m \<in> set (matchNodes oldChildren newChildren) \<Longrightarrow> isGreedyRun oldChildren newChildren m"
  by (auto simp: matchNodes_runs dest: runAt_greedy)

lemma map_oldStartIndex_runs:
  "\<forall>i \<in> set is. i < length oldChildren \<Longrightarrow>
   map oldStartIndex (concat (map (runAt oldChildren newChildren) is))
   = filter (\<lambda>i. hasEqualUnit newChildren (oldChildren ! i)) is"
proof (induction "is")
  case Nil
  then show ?case by simp
next
  case (Cons i "is")
  show ?case
  proof (cases "findMatchNode newChildren (oldChildren ! i) 0")
    case None
    from findMatchNode_None [OF None] have "\<not> hasEqualUnit newChildren (oldChildren ! i)"
      by (simp add: hasEqualUnit_def)
    with None Cons show ?thesis by (simp add: runAt_def)
  next
    case (Some j)
    from findMatchNode_Some [OF Some] have "hasEqualUnit newChildren (oldChildren ! i)"
      by (auto simp: hasEqualUnit_def)
    with Some Cons show ?thesis by (simp add: runAt_def split: prod.splits)
  qed
qed

lemma matchNodes_starts:
  "map oldStartIndex (matchNodes oldChildren newChildren)
   = filter (\<lambda>i. hasEqualUnit newChildren (oldChildren ! i)) [0..<length oldChildren]"
  unfolding matchNodes_runs by (rule map_oldStartIndex_runs) simp

lemma matchNodes_sorted_starts:
  "sorted (map oldStartIndex (matchNodes oldChildren newChildren))"
  by (simp add: matchNodes_starts sorted_wrt_filter)

lemma matchNodes_distinct_starts:
  "distinct (map oldStartIndex (matchNodes oldChildren newChildren))"
  by (simp add: matchNodes_starts)

lemma hd_sort_key_min:
  assumes "xs \<noteq> []"
  shows "hd (sort_key f xs) \<in> set xs \<and> (\<forall>x \<in> set xs. f (hd (sort_key f xs)) \<le> f x)"
proof -
  from assms obtain b bs where b: "sort_key f xs = b # bs"
    by (cases "sort_key f xs") (auto dest: arg_cong [where f = length])
  have "sorted (map f (sort_key f xs))" by (rule sorted_sort_key)
  with b have "\<forall>x \<in> set (b # bs). f b \<le> f x" by auto
  moreover have "set (b # bs) = set xs" using b set_sort [of f xs] by simp
  ultimately show ?thesis using b by auto
qed

lemma hd_sort_key_first:
  assumes "xs \<noteq> []" "sorted (map g xs)" "x \<in> set xs" "f x = f (hd (sort_key f xs))"
  shows "g (hd (sort_key f xs)) \<le> g x"
proof -
  let ?b = "hd (sort_key f xs)"
  let ?P = "\<lambda>y. f y = f ?b"
  from assms(1) obtain bs where b: "sort_key f xs = ?b # bs"
    by (cases "sort_key f xs") (auto dest: arg_cong [where f = length])
  have "filter ?P xs = filter ?P (sort_key f xs)" by (rule sort_key_stable [symmetric])
  also have "\<dots> = ?b # filter ?P bs" by (subst b) simp
  finally have hd: "filter ?P xs = ?b # filter ?P bs" .
  have "sorted (map g (filter ?P xs))"
    using assms(2) by (simp add: sorted_wrt_map sorted_wrt_filter)
  with hd have "\<forall>y \<in> set (filter ?P xs). g ?b \<le> g y" by auto
  with assms(3,4) show ?thesis by simp
qed

text \<open>
  C4. Every result of \<open>matchNodes\<close> is the greedy run of its old start index: it starts
  at the first new index whose unit equals the old unit and extends while the following
  units are pairwise equal. There is one result for each old index that has an equal unit
  in the new list, in increasing order of the old index. The best match the patcher takes
  has the greatest count, and among the results of that count the smallest old start
  index; it is a function of the two lists.
\<close>

theorem matchNodes_best_run:
  "(\<forall>m \<in> set (matchNodes oldChildren newChildren). isGreedyRun oldChildren newChildren m) \<and>
   map oldStartIndex (matchNodes oldChildren newChildren)
     = filter (\<lambda>i. hasEqualUnit newChildren (oldChildren ! i)) [0..<length oldChildren] \<and>
   (case bestMatch (matchNodes oldChildren newChildren) of
      None \<Rightarrow> matchNodes oldChildren newChildren = []
    | Some b \<Rightarrow>
        b \<in> set (matchNodes oldChildren newChildren) \<and>
        (\<forall>m \<in> set (matchNodes oldChildren newChildren).
           count m \<le> count b \<and> (count m = count b \<longrightarrow> oldStartIndex b \<le> oldStartIndex m)))"
proof (intro conjI)
  show "\<forall>m \<in> set (matchNodes oldChildren newChildren). isGreedyRun oldChildren newChildren m"
    by (simp add: matchNodes_greedy)
  show "map oldStartIndex (matchNodes oldChildren newChildren)
     = filter (\<lambda>i. hasEqualUnit newChildren (oldChildren ! i)) [0..<length oldChildren]"
    by (rule matchNodes_starts)
  let ?ms = "matchNodes oldChildren newChildren" and ?key = "\<lambda>m. - int (count m)"
  show "case bestMatch ?ms of
      None \<Rightarrow> ?ms = []
    | Some b \<Rightarrow> b \<in> set ?ms \<and>
        (\<forall>m \<in> set ?ms. count m \<le> count b \<and> (count m = count b \<longrightarrow> oldStartIndex b \<le> oldStartIndex m))"
  proof (cases "?ms = []")
    case True
    then show ?thesis by (simp add: bestMatch_def sortByCount_def)
  next
    case False
    then obtain b bs where b: "sort_key ?key ?ms = b # bs"
      by (cases "sort_key ?key ?ms") (auto dest: arg_cong [where f = length])
    then have hd: "hd (sort_key ?key ?ms) = b" by simp
    from hd_sort_key_min [OF False, of ?key] hd
    have 1: "b \<in> set ?ms" "\<forall>m \<in> set ?ms. count m \<le> count b" by auto
    have 2: "oldStartIndex b \<le> oldStartIndex m" if "m \<in> set ?ms" "count m = count b" for m
      using hd_sort_key_first [OF False matchNodes_sorted_starts that(1), of ?key] that(2) hd
      by simp
    from b 1 2 show ?thesis by (simp add: bestMatch_def sortByCount_def)
  qed
qed

lemma isNodeEqual_leaves:
  "isNodeEqual imageNode imageNode" "isNodeEqual ruleNode ruleNode"
  "\<not> isNodeEqual imageNode ruleNode" "\<not> isNodeEqual ruleNode imageNode"
  by (simp_all add: imageNode_def ruleNode_def attrsEqual_def)

lemma ex_matchNodes: "matchNodes ex_units_IR ex_units_RI = [ex_run_first, ex_run_second]"
  by (simp add: matchNodes_def ex_units_IR_def ex_units_RI_def ex_run_first_def ex_run_second_def
      matchNodesFrom.simps findMatchNode.simps extendMatch.simps isNodeEqual_leaves)

theorem matchNodes_best_run_witness:
  "matchNodes ex_units_IR ex_units_RI = [ex_run_first, ex_run_second] \<and>
   isGreedyRun ex_units_IR ex_units_RI ex_run_first \<and>
   isGreedyRun ex_units_IR ex_units_RI ex_run_second \<and>
   bestMatch (matchNodes ex_units_IR ex_units_RI) = Some ex_run_first \<and>
   count ex_run_second = count ex_run_first \<and>
   oldStartIndex ex_run_first \<le> oldStartIndex ex_run_second"
  using matchNodes_best_run [of ex_units_IR ex_units_RI]
  by (simp add: ex_matchNodes bestMatch_def sortByCount_def)
     (simp add: ex_run_first_def ex_run_second_def)

section \<open>Identity\<close>

lemma isMarkEqual_refl: "isMarkEqual m m"
  by (simp add: isMarkEqual_def)

lemma attrsEqual_refl: "attrsEqual as as"
  by (simp add: attrsEqual_def list_all_iff)

lemma isNodeEqual_refl: "isNodeEqual n n"
proof (induction n)
  case (Node t as ms cs x)
  have "list_all2 isMarkEqual ms ms"
    by (simp add: list_all2_same isMarkEqual_refl)
  moreover have "list_all2 isNodeEqual cs cs"
    using Node.IH by (simp add: list_all2_same)
  ultimately show ?case by (simp add: attrsEqual_refl)
qed

lemma isNodeEqual_type: "isNodeEqual a b \<Longrightarrow> node_type a = node_type b"
  by (cases a; cases b) (auto split: if_splits)

lemma isNodeEqual_isTextNode: "isNodeEqual a b \<Longrightarrow> isTextNode a = isTextNode b"
  by (simp add: isTextNode_def isNodeEqual_type)

lemma isNodeEqual_content:
  "isNodeEqual a b \<Longrightarrow> list_all2 isNodeEqual (node_content a) (node_content b)"
  by (cases a; cases b) (auto split: if_splits)

lemma list_all2_takeWhile_dropWhile:
  assumes "list_all2 R xs ys" "\<And>x y. R x y \<Longrightarrow> P x = Q y"
  shows "list_all2 R (takeWhile P xs) (takeWhile Q ys) \<and>
         list_all2 R (dropWhile P xs) (dropWhile Q ys)"
  using assms(1)
proof (induction rule: list_all2_induct)
  case Nil
  then show ?case by simp
next
  case (Cons x xs y ys)
  with assms(2) [of x y] show ?case by simp
qed

lemma normalizeContent_equal:
  "list_all2 isNodeEqual cs cs' \<Longrightarrow>
   list_all2 isNodeLikeEqual (normalizeContent cs) (normalizeContent cs')"
proof (induction cs arbitrary: cs' rule: normalizeContent.induct)
  case 1
  then show ?case by simp
next
  case (2 child rest)
  from "2.prems" obtain child' rest' where c: "cs' = child' # rest'"
    "isNodeEqual child child'" "list_all2 isNodeEqual rest rest'"
    by (auto simp: list_all2_Cons1)
  from list_all2_takeWhile_dropWhile [OF c(3), of isTextNode isTextNode]
  have td: "list_all2 isNodeEqual (takeWhile isTextNode rest) (takeWhile isTextNode rest')"
    "list_all2 isNodeEqual (dropWhile isTextNode rest) (dropWhile isTextNode rest')"
    by (simp_all add: isNodeEqual_isTextNode)
  from c(2) have t: "isTextNode child' = isTextNode child"
    by (simp add: isNodeEqual_isTextNode)
  show ?case
  proof (cases "isTextNode child")
    case True
    with "2.IH"(1) [OF True td(2)] td(1) c t show ?thesis
      by (simp add: list_all2_lengthD)
  next
    case False
    with "2.IH"(2) [OF False c(3)] c t show ?thesis by simp
  qed
qed

lemma concat_ensureArray_normalizeContent:
  "concat (map ensureArray (normalizeContent cs)) = cs"
  by (induction cs rule: normalizeContent.induct) simp_all

lemma prefixTrim_equal:
  "list_all2 isNodeLikeEqual oldChildren newChildren \<Longrightarrow> left \<le> length oldChildren \<Longrightarrow>
   prefixTrim oldChildren newChildren left acc
   = (length oldChildren, acc @ concat (map ensureArray (drop left oldChildren)))"
proof (induction oldChildren newChildren left acc rule: prefixTrim.induct)
  case (1 oldChildren newChildren left acc)
  from "1.prems"(1) have len: "length newChildren = length oldChildren"
    by (simp add: list_all2_lengthD)
  show ?case
  proof (cases "left < length oldChildren")
    case True
    with "1.prems"(1) have eq: "isNodeLikeEqual (oldChildren ! left) (newChildren ! left)"
      by (simp add: list_all2_nthD)
    from True have d: "drop left oldChildren = oldChildren ! left # drop (left + 1) oldChildren"
      by (simp add: Cons_nth_drop_Suc)
    from True len have g: "left < min (length oldChildren) (length newChildren)" by simp
    have "\<not> \<not> isNodeLikeEqual (oldChildren ! left) (newChildren ! left)" using eq by simp
    from "1.IH" [OF g this "1.prems"(1)] True g eq show ?thesis
      by (subst prefixTrim.simps) (simp add: d)
  next
    case False
    with "1.prems"(2) len show ?thesis
      by (subst prefixTrim.simps) simp
  qed
qed

lemma patchRemainNodes_empty: "patchRemainNodes patch dmp [] [] = Inr []"
  by (simp add: patchRemainNodes_def patchRemainLoop.simps remainGuard_def)

lemma patchChildren_equal:
  assumes "list_all2 isNodeLikeEqual oldChildren newChildren"
  shows "patchChildren patch dmp oldChildren newChildren = Inr (concat (map ensureArray oldChildren))"
proof -
  from assms have len: "length newChildren = length oldChildren"
    by (simp add: list_all2_lengthD)
  have p: "prefixTrim oldChildren newChildren 0 [] = (length oldChildren, concat (map ensureArray oldChildren))"
    using prefixTrim_equal [OF assms, of 0 "[]"] by simp
  have s: "suffixTrim oldChildren newChildren (length oldChildren) 0 [] = (0, [])"
    by (rule suffixTrim_exhausted) simp
  show ?thesis
    unfolding patchChildren_def Let_def
    by (simp add: p s len slice_def patchRemainNodes_empty)
qed

lemma patchDocumentNode_equal:
  assumes "isNodeEqual D D'"
  shows "patchDocumentNode dmp D D'
         = Inr (Node (node_type D) (node_attrs D) (node_marks D) (node_content D) None)"
proof -
  from assms have a: "assertNodeTypeEqual D D' = Inr ()"
    by (simp add: assertNodeTypeEqual_def isNodeEqual_type)
  have "list_all2 isNodeLikeEqual (normalizeNodeContent D) (normalizeNodeContent D')"
    unfolding normalizeNodeContent_def getNodeChildren_def
    by (intro normalizeContent_equal isNodeEqual_content assms)
  from patchChildren_equal [OF this] a show ?thesis
    by (subst patchDocumentNode.simps)
       (simp add: createNewNode_def type_create_def normalizeNodeContent_def getNodeChildren_def
          concat_ensureArray_normalizeContent)
qed

lemma isNodeEqual_clear_text:
  "node_type D \<noteq> ''text'' \<Longrightarrow>
   isNodeEqual (Node (node_type D) (node_attrs D) (node_marks D) (node_content D) None) D"
  using isNodeEqual_refl [of D] by (cases D) (auto split: if_splits)

lemma hasDiffMark_clear_text:
  "hasDiffMark (Node (node_type D) (node_attrs D) (node_marks D) (node_content D) None) = hasDiffMark D"
  by (cases D) simp

text \<open>
  C1. Diffing a document against a structurally equal document (in particular against
  itself) returns a tree that is structurally equal to it, with the same children and the
  same marks: no diff mark is added, so a document free of diff marks gives a result free
  of diff marks. The root of a document is not a text node.
\<close>

theorem diffEditor_identity:
  "isNodeEqual D D' \<Longrightarrow> node_type D \<noteq> ''text'' \<Longrightarrow> \<not> hasDiffMark D \<Longrightarrow>
   \<exists>r. diffEditor dmp D D' = Inr r \<and> isNodeEqual r D \<and> \<not> hasDiffMark r \<and>
       node_content r = node_content D \<and> node_marks r = node_marks D"
proof -
  assume eq: "isNodeEqual D D'" and root: "node_type D \<noteq> ''text''" and clean: "\<not> hasDiffMark D"
  let ?r = "Node (node_type D) (node_attrs D) (node_marks D) (node_content D) None"
  have "diffEditor dmp D D' = Inr ?r"
    unfolding diffEditor_def using eq by (rule patchDocumentNode_equal)
  moreover have "isNodeEqual ?r D"
    using root by (rule isNodeEqual_clear_text)
  moreover have "\<not> hasDiffMark ?r"
    using clean by (simp add: hasDiffMark_clear_text del: hasDiffMark.simps)
  moreover have "node_content ?r = node_content D \<and> node_marks ?r = node_marks D"
    by simp
  ultimately show ?thesis by blast
qed

theorem diffEditor_identity_witness:
  "isNodeEqual ex_doc ex_doc \<and> node_type ex_doc \<noteq> ''text'' \<and> \<not> hasDiffMark ex_doc \<and>
   diffEditor prefix_diff ex_doc ex_doc = Inr ex_doc"
proof -
  have 1: "isNodeEqual ex_doc ex_doc" by (rule isNodeEqual_refl)
  have 2: "node_type ex_doc \<noteq> ''text''" by (simp add: ex_doc_def docNode_def)
  have 3: "\<not> hasDiffMark ex_doc"
    by (simp add: ex_doc_def docNode_def paragraphNode_def textNode_def imageNode_def)
  from diffEditor_identity [OF 1 2 3, of prefix_diff] obtain r
    where r: "diffEditor prefix_diff ex_doc ex_doc = Inr r"
      "node_content r = node_content ex_doc" "node_marks r = node_marks ex_doc" by blast
  from r(1) have "\<exists>children. r = Node (node_type ex_doc) (node_attrs ex_doc) (node_marks ex_doc) children None"
    unfolding diffEditor_def by (rule patchDocumentNode_result)
  with r(2) have "r = ex_doc" by (auto simp: ex_doc_def docNode_def)
  with 1 2 3 r(1) show ?thesis by simp
qed

section \<open>Text diff engine: the sentence round trip\<close>

lemma tokenizeSentences_nonempty: "[] \<notin> set (tokenizeSentences t)"
proof (induction t rule: tokenizeSentences.induct)
  case 1
  then show ?case by (simp add: tokenizeSentences.simps)
next
  case (2 c cs)
  show ?case
  proof (cases "isTerminator c")
    case True
    with "2.IH"(1) show ?thesis by (simp add: tokenizeSentences.simps)
  next
    case False
    from "2.IH"(2) [OF False refl refl refl refl refl refl] False show ?thesis
      by (simp add: tokenizeSentences.simps Let_def)
  qed
qed

lemma array_set_end: "array_set xs (length xs) v = xs @ [v]"
  by (simp add: array_set_def)

lemma lineInv_start: "lineInv ([], Map.empty, 0)"
  by (simp add: lineInv_def)

lemma decodes_append: "decodes arr c l \<Longrightarrow> decodes (arr @ ext) c l"
  unfolding decodes_def by (auto simp: nth_append)

lemma internLine_step:
  assumes inv: "lineInv (arr, hash, start)"
    and np: "line \<notin> set protoKeys"
    and step: "internLine line (arr, hash, start) = (c, st')"
  shows "lineInv st' \<and> (\<exists>ext. fst st' = arr @ ext) \<and> set (fst st') = insert line (set arr) \<and>
         decodes (fst st') c line"
proof (cases "hash line")
  case None
  with inv have fresh: "line \<notin> set arr" and start: "start = length arr"
    by (auto simp: lineInv_def)
  from None np step start have c: "c = of_nat (length arr)"
    and st': "st' = (arr @ [line], hash(line \<mapsto> length arr), length arr + 1)"
    by (auto simp: internLine_def array_set_end)
  have "lineInv st'"
    unfolding st' lineInv_def using inv fresh
    by (auto simp: lineInv_def nth_append less_Suc_eq)
  moreover have "decodes (fst st') c line"
    unfolding decodes_def st' c by (intro exI [of _ "length arr"]) simp
  ultimately show ?thesis by (simp add: st')
next
  case (Some i)
  with inv have i: "i < length arr" "arr ! i = line" by (auto simp: lineInv_def)
  from Some np step have c: "c = of_nat i" and st': "st' = (arr, hash, start)"
    by (auto simp: internLine_def)
  from i have "line \<in> set arr" by (metis nth_mem)
  moreover have "decodes arr c line"
    unfolding decodes_def c using i by blast
  ultimately show ?thesis using inv by (auto simp: st')
qed

lemma internLines_step:
  assumes "lineInv st" "\<forall>l \<in> set ls. l \<notin> set protoKeys" "internLines ls st = (cs, st')"
  shows "lineInv st' \<and> (\<exists>ext. fst st' = fst st @ ext) \<and> set (fst st') = set (fst st) \<union> set ls \<and>
         list_all2 (decodes (fst st')) cs ls"
  using assms
proof (induction ls arbitrary: st cs st')
  case Nil
  then show ?case by simp
next
  case (Cons l ls)
  obtain arr hash start where st: "st = (arr, hash, start)" by (cases st) auto
  obtain c st1 where s1: "internLine l st = (c, st1)" by (cases "internLine l st") auto
  obtain cs1 st2 where s2: "internLines ls st1 = (cs1, st2)" by (cases "internLines ls st1") auto
  from Cons.prems(3) s1 s2 have r: "cs = c # cs1" "st' = st2" by simp_all
  from internLine_step [OF Cons.prems(1) [unfolded st] _ s1 [unfolded st]] Cons.prems(2)
  have a: "lineInv st1" "\<exists>ext. fst st1 = arr @ ext" "set (fst st1) = insert l (set arr)"
    "decodes (fst st1) c l" by auto
  from Cons.IH [OF a(1) _ s2] Cons.prems(2)
  have b: "lineInv st2" "\<exists>ext. fst st2 = fst st1 @ ext" "set (fst st2) = set (fst st1) \<union> set ls"
    "list_all2 (decodes (fst st2)) cs1 ls" by auto
  from a(4) b(2) have "decodes (fst st2) c l" by (auto intro: decodes_append)
  moreover from a(2) b(2) have "\<exists>ext. fst st2 = arr @ ext" by auto
  ultimately show ?case using a b by (simp add: r st)
qed

lemma charsToSentences_decodes:
  assumes "list_all2 (decodes arr) cs ls" "length arr \<le> 65536" "[] \<notin> set ls"
  shows "charsToSentences arr cs = ls"
  using assms(1,3)
proof (induction rule: list_all2_induct)
  case Nil
  then show ?case by (simp add: charsToSentences_def)
next
  case (Cons c cs l ls)
  from Cons.hyps(1) obtain i where i: "c = of_nat i" "i < length arr" "arr ! i = l"
    by (auto simp: decodes_def)
  with assms(2) have "unat c = i" by (simp add: unat_of_nat)
  with i Cons show ?case by (auto simp: charsToSentences_def)
qed

lemma charsToSentences_append:
  "charsToSentences arr (a @ b) = charsToSentences arr a @ charsToSentences arr b"
  by (simp add: charsToSentences_def)

lemma sentencesToChars_decodes:
  assumes "sentencesToChars oldS newS = (chars1, chars2, arr)"
    and "set oldS \<inter> set protoKeys = {}" "set newS \<inter> set protoKeys = {}"
    and "[] \<notin> set oldS" "[] \<notin> set newS"
    and "card (set oldS \<union> set newS) \<le> 65536"
  shows "charsToSentences arr chars1 = oldS \<and> charsToSentences arr chars2 = newS"
proof -
  obtain c1 st1 where s1: "internLines oldS ([], Map.empty, 0) = (c1, st1)"
    by (cases "internLines oldS ([], Map.empty, 0)") auto
  obtain c2 st2 where s2: "internLines newS st1 = (c2, st2)"
    by (cases "internLines newS st1") auto
  from assms(1) s1 s2 have r: "chars1 = c1" "chars2 = c2" "arr = fst st2"
    by (simp_all add: sentencesToChars_def)
  from internLines_step [OF lineInv_start _ s1] assms(2)
  have a: "lineInv st1" "set (fst st1) = set oldS" "list_all2 (decodes (fst st1)) c1 oldS"
    by auto
  from internLines_step [OF a(1) _ s2] assms(3)
  have b: "lineInv st2" "\<exists>ext. fst st2 = fst st1 @ ext" "set (fst st2) = set (fst st1) \<union> set newS"
    "list_all2 (decodes (fst st2)) c2 newS" by auto
  from a(3) b(2) have d1: "list_all2 (decodes (fst st2)) c1 oldS"
    by (auto elim!: list_all2_mono intro: decodes_append)
  from b(1) have "distinct (fst st2)" by (cases st2) (simp add: lineInv_def)
  then have "length (fst st2) = card (set (fst st2))" by (simp add: distinct_card)
  with a(2) b(3) assms(6) have len: "length (fst st2) \<le> 65536" by simp
  from charsToSentences_decodes [OF d1 len assms(4)]
    charsToSentences_decodes [OF b(4) len assms(5)]
  show ?thesis by (simp add: r)
qed

lemma sentenceNode_marksFor: "sentenceNode ty s = Inr (createTextNode s (marksFor ty))"
  by (cases ty) (simp_all add: sentenceNode_def marksFor_def createDiffMark_def schema_mark_def
      diffMarkOf_def)

lemma patchTextNodes_segments:
  assumes "sentencesToChars (tokenizeSentences (concat (map getNodeText oldNode)))
             (tokenizeSentences (concat (map getNodeText newNode))) = (chars1, chars2, arr)"
  shows "patchTextNodes dmp oldNode newNode
         = Inr (concat (map (segmentNodes arr) (dmp chars1 chars2)))"
proof -
  have "mapM_err (\<lambda>(ty, sentences). mapM_err (sentenceNode ty) sentences)
          (map (\<lambda>(ty, text). (ty, charsToSentences arr text)) ds)
        = Inr (map (segmentNodes arr) ds)" for ds
  proof (induction ds)
    case Nil
    then show ?case by simp
  next
    case (Cons d ds)
    obtain ty code where d: "d = (ty, code)" by (cases d) auto
    have "mapM_err (sentenceNode ty) ss = Inr (map (\<lambda>s. createTextNode s (marksFor ty)) ss)" for ss
      by (rule mapM_err_map) (rule sentenceNode_marksFor)
    with Cons show ?case by (simp add: d segmentNodes_def)
  qed
  with assms show ?thesis
    unfolding patchTextNodes_def Let_def by simp
qed

lemma leafAnnotation_createTextNode: "leafAnnotation (createTextNode s (marksFor ty)) = ty"
  by (cases ty)
     (simp_all add: leafAnnotation_def createTextNode_def schema_text_def marksFor_def diffMarkOf_def)

lemma getNodeText_createTextNode: "getNodeText (createTextNode s ms) = s"
  by (simp add: getNodeText_def createTextNode_def schema_text_def)

lemma keptText_segmentNodes:
  "keptText dropped (segmentNodes arr d)
   = (if fst d \<noteq> dropped then concat (charsToSentences arr (snd d)) else [])"
  by (simp add: keptText_def segmentNodes_def leafAnnotation_createTextNode
      getNodeText_createTextNode o_def)

lemma keptText_append: "keptText dropped (a @ b) = keptText dropped a @ keptText dropped b"
  by (simp add: keptText_def)

lemma keptText_segments:
  "keptText dropped (concat (map (segmentNodes arr) ds))
   = concat (charsToSentences arr (keepText dropped ds))"
proof (induction ds)
  case Nil
  then show ?case by (simp add: keptText_def keepText_def charsToSentences_def)
next
  case (Cons d ds)
  have "keepText dropped (d # ds) = (if fst d \<noteq> dropped then snd d else []) @ keepText dropped ds"
    by (simp add: keepText_def)
  with Cons show ?case
    by (simp add: keptText_append keptText_segmentNodes charsToSentences_append)
       (simp add: charsToSentences_def)
qed

text \<open>
  What the engine's output spells. With a diff primitive that meets its contract, no
  sentence that is a property name inherited from \<open>Object.prototype\<close>, and at most 65536
  distinct sentences in total, the leaves not marked Deleted spell the concatenation of the
  new side's sentences and the leaves not marked Inserted that of the old side's sentences.
  Whether that is the side's text depends on \<open>tokenizeSentences\<close> alone.
\<close>

lemma patchTextNodes_spells_sentences:
  assumes "\<And>a b. diff_contract dmp a b"
    and "set (tokenizeSentences (concat (map getNodeText oldNode))) \<inter> set protoKeys = {}"
    and "set (tokenizeSentences (concat (map getNodeText newNode))) \<inter> set protoKeys = {}"
    and "card (set (tokenizeSentences (concat (map getNodeText oldNode)))
               \<union> set (tokenizeSentences (concat (map getNodeText newNode)))) \<le> 65536"
  shows "\<exists>res. patchTextNodes dmp oldNode newNode = Inr res \<and>
           keptText Deleted res = concat (tokenizeSentences (concat (map getNodeText newNode))) \<and>
           keptText Inserted res = concat (tokenizeSentences (concat (map getNodeText oldNode)))"
proof -
  let ?oldS = "tokenizeSentences (concat (map getNodeText oldNode))"
  let ?newS = "tokenizeSentences (concat (map getNodeText newNode))"
  obtain chars1 chars2 arr where s: "sentencesToChars ?oldS ?newS = (chars1, chars2, arr)"
    by (cases "sentencesToChars ?oldS ?newS") auto
  have ne: "[] \<notin> set ?oldS" "[] \<notin> set ?newS"
    by (rule tokenizeSentences_nonempty)+
  from sentencesToChars_decodes [OF s assms(2,3) ne assms(4)]
  have dec: "charsToSentences arr chars1 = ?oldS" "charsToSentences arr chars2 = ?newS" by auto
  from assms(1) [of chars1 chars2]
  have k: "keepText Inserted (dmp chars1 chars2) = chars1" "keepText Deleted (dmp chars1 chars2) = chars2"
    by (simp_all add: diff_contract_def)
  let ?res = "concat (map (segmentNodes arr) (dmp chars1 chars2))"
  have "patchTextNodes dmp oldNode newNode = Inr ?res"
    by (rule patchTextNodes_segments [OF s])
  moreover have "keptText Deleted ?res = concat ?newS"
    by (simp add: keptText_segments k dec)
  moreover have "keptText Inserted ?res = concat ?oldS"
    by (simp add: keptText_segments k dec)
  ultimately show ?thesis by blast
qed

text \<open>
  On texts that \<open>tokenizeSentences\<close> splits without dropping a code unit the leaves
  therefore spell the two sides.
\<close>

lemma patchTextNodes_round_trip:
  assumes "\<And>a b. diff_contract dmp a b"
    and "lossless (concat (map getNodeText oldNode))"
    and "lossless (concat (map getNodeText newNode))"
    and "set (tokenizeSentences (concat (map getNodeText oldNode))) \<inter> set protoKeys = {}"
    and "set (tokenizeSentences (concat (map getNodeText newNode))) \<inter> set protoKeys = {}"
    and "card (set (tokenizeSentences (concat (map getNodeText oldNode)))
               \<union> set (tokenizeSentences (concat (map getNodeText newNode)))) \<le> 65536"
  shows "\<exists>res. patchTextNodes dmp oldNode newNode = Inr res \<and>
           keptText Deleted res = concat (map getNodeText newNode) \<and>
           keptText Inserted res = concat (map getNodeText oldNode)"
  using patchTextNodes_spells_sentences [OF assms(1,4,5,6)] assms(2,3)
  by (simp add: lossless_def)

lemma commonPrefix_take:
  "take (length (commonPrefix a b)) a = commonPrefix a b \<and>
   take (length (commonPrefix a b)) b = commonPrefix a b"
  by (induction a b rule: commonPrefix.induct) auto

lemma keepText_append: "keepText dropped (xs @ ys) = keepText dropped xs @ keepText dropped ys"
  by (simp add: keepText_def)

lemma keepText_segment:
  "keepText dropped (segment ty t) = (if ty \<noteq> dropped then t else [])"
  by (simp add: keepText_def segment_def)

lemma prefix_diff_contract: "diff_contract prefix_diff a b"
proof -
  let ?p = "commonPrefix a b"
  have "?p @ drop (length ?p) a = a" "?p @ drop (length ?p) b = b"
    using commonPrefix_take [of a b] append_take_drop_id [of "length ?p"] by metis+
  then show ?thesis
    by (simp add: diff_contract_def prefix_diff_def Let_def keepText_append keepText_segment)
qed

lemma ex_tokens:
  "tokenizeSentences (js ''The cat sat. '') = [js ''The cat sat. '']"
  "tokenizeSentences (js ''The cat sat. It purred.'') = [js ''The cat sat. '', js ''It purred.'']"
  by (simp_all add: js_def tokenizeSentences.simps isTerminator_def isSpace_def Let_def)

lemma ex_texts:
  "concat (map getNodeText ex_old_text) = js ''The cat sat. ''"
  "concat (map getNodeText ex_new_text) = js ''The cat sat. It purred.''"
  by (simp_all add: ex_old_text_def ex_new_text_def textNode_def getNodeText_def js_def)

lemma ex_no_protoKeys:
  "js ''The cat sat. '' \<notin> set protoKeys" "js ''It purred.'' \<notin> set protoKeys"
  by (simp_all add: protoKeys_def js_def)

lemma patchTextNodes_round_trip_example:
  "(\<forall>a b. diff_contract prefix_diff a b) \<and>
   lossless (concat (map getNodeText ex_old_text)) \<and>
   lossless (concat (map getNodeText ex_new_text)) \<and>
   set (tokenizeSentences (concat (map getNodeText ex_old_text))) \<inter> set protoKeys = {} \<and>
   set (tokenizeSentences (concat (map getNodeText ex_new_text))) \<inter> set protoKeys = {} \<and>
   card (set (tokenizeSentences (concat (map getNodeText ex_old_text)))
         \<union> set (tokenizeSentences (concat (map getNodeText ex_new_text)))) \<le> 65536 \<and>
   (\<exists>res. patchTextNodes prefix_diff ex_old_text ex_new_text = Inr res \<and>
          keptText Deleted res = js ''The cat sat. It purred.'' \<and>
          keptText Inserted res = js ''The cat sat. '')"
proof -
  have 1: "\<And>a b. diff_contract prefix_diff a b" by (rule prefix_diff_contract)
  have 2: "lossless (concat (map getNodeText ex_old_text))"
    by (simp add: lossless_def ex_texts ex_tokens)
  have 3: "lossless (concat (map getNodeText ex_new_text))"
    by (simp add: lossless_def ex_texts ex_tokens) (simp add: js_def)
  have 4: "set (tokenizeSentences (concat (map getNodeText ex_old_text))) \<inter> set protoKeys = {}"
    by (simp add: ex_texts ex_tokens ex_no_protoKeys)
  have 5: "set (tokenizeSentences (concat (map getNodeText ex_new_text))) \<inter> set protoKeys = {}"
    by (simp add: ex_texts ex_tokens ex_no_protoKeys)
  have "card (set (tokenizeSentences (concat (map getNodeText ex_old_text)))
         \<union> set (tokenizeSentences (concat (map getNodeText ex_new_text)))) \<le> 2"
    by (simp add: ex_texts ex_tokens card_insert_if)
  then have 6: "card (set (tokenizeSentences (concat (map getNodeText ex_old_text)))
         \<union> set (tokenizeSentences (concat (map getNodeText ex_new_text)))) \<le> 65536"
    by simp
  from patchTextNodes_round_trip [of prefix_diff ex_old_text ex_new_text, OF 1 2 3 4 5 6]
  show ?thesis using 1 2 3 4 5 6 by (simp add: ex_texts)
qed

lemma ex_ellipsis_tokens:
  "tokenizeSentences (js ''Hi. ...there'') = [js ''Hi. '', js ''there'']"
  by (simp add: js_def tokenizeSentences.simps isTerminator_def isSpace_def Let_def)

text \<open>
  C3 does not hold of the code. Diffing the text run \<open>Hi. ...there\<close> against itself
  returns the two unmarked leaves \<open>Hi. \<close> and \<open>there\<close>: the leaves that are not Deleted
  spell \<open>Hi. there\<close>, not the new side's text, and likewise for the old side. The regular
  expression of \<open>tokenizeSentences\<close> cannot start a match at a terminator, so the three
  full stops after the white space that ends \<open>Hi. \<close> belong to no sentence and are
  dropped.
\<close>

theorem patchTextNodes_drops_terminators:
  "patchTextNodes prefix_diff ex_ellipsis ex_ellipsis = Inr [textNode ''Hi. '', textNode ''there''] \<and>
   keptText Deleted [textNode ''Hi. '', textNode ''there''] = js ''Hi. there'' \<and>
   keptText Inserted [textNode ''Hi. '', textNode ''there''] = js ''Hi. there'' \<and>
   concat (map getNodeText ex_ellipsis) = js ''Hi. ...there'' \<and>
   js ''Hi. there'' \<noteq> js ''Hi. ...there''"
  by code_simp

text \<open>
  The loss does not depend on the diff primitive: with every primitive that meets the diff
  contract the leaves spell \<open>Hi. there\<close> on both sides.
\<close>

lemma patchTextNodes_drops_terminators_any_diff:
  assumes "\<And>a b. diff_contract dmp a b"
  shows "\<exists>res. patchTextNodes dmp ex_ellipsis ex_ellipsis = Inr res \<and>
           keptText Deleted res = js ''Hi. there'' \<and> keptText Inserted res = js ''Hi. there''"
proof -
  have t: "concat (map getNodeText ex_ellipsis) = js ''Hi. ...there''"
    by (simp add: ex_ellipsis_def textNode_def getNodeText_def)
  have p: "set (tokenizeSentences (concat (map getNodeText ex_ellipsis))) \<inter> set protoKeys = {}"
    by (simp add: t ex_ellipsis_tokens) (simp add: protoKeys_def js_def)
  have "card (set (tokenizeSentences (concat (map getNodeText ex_ellipsis)))
          \<union> set (tokenizeSentences (concat (map getNodeText ex_ellipsis)))) \<le> 2"
    by (simp add: t ex_ellipsis_tokens card_insert_if)
  then have c: "card (set (tokenizeSentences (concat (map getNodeText ex_ellipsis)))
          \<union> set (tokenizeSentences (concat (map getNodeText ex_ellipsis)))) \<le> 65536"
    by simp
  from patchTextNodes_spells_sentences [of dmp ex_ellipsis ex_ellipsis, OF assms p p c]
  show ?thesis by (simp add: t ex_ellipsis_tokens) (simp add: js_def)
qed

text \<open>
  A second loss on the same path: \<open>line in lineHash\<close> also holds for a sentence that is
  a property name inherited from \<open>Object.prototype\<close>. Such a sentence is never interned;
  it is encoded as code unit 0, which decodes to nothing here.
\<close>

lemma patchTextNodes_prototype_name:
  "patchTextNodes prefix_diff [textNode ''toString''] [textNode ''toString''] = Inr []"
  by code_simp

section \<open>Coverage of old-only and new-only leaves\<close>

lemmas eval_simps =
  patchDocumentNode.simps patchChildren_def patchRemainNodes_def patchRemainLoop.simps
  patchRemainStep_def remainGuard_def prefixTrim.simps suffixTrim.simps matchNodes_def
  matchNodesFrom.simps findMatchNode.simps extendMatch.simps bestMatch_def sortByCount_def
  slice_def diffNodes_def createDiffNode_def mapDocumentNode_Node diffNodeMapper_def
  createDiffMark_def schema_mark_def createTextNode_def schema_text_def createNewNode_def
  type_create_def assertNodeTypeEqual_def normalizeNodeContent_def getNodeChildren_def
  getNodeText_def isTextNode_def isArray_def computeChildEqualityFactor_def attrsEqual_def
  isMarkEqual_def Let_def

text \<open>
  C2 does not hold of the code. When a paragraph holding the text \<open>Hello\<close> becomes a
  paragraph holding an image, the merged paragraph holds the image only: the old-only text
  leaf is in the output neither as Deleted nor in any other form. The delete-and-insert
  branch of \<open>patchRemainNodes\<close> emits a unit only when it is a single node, while the
  remainder code after the loop flattens text-run groups and annotates each leaf.
\<close>

theorem diffEditor_loses_old_text:
  "diffEditor dmp (docNode [paragraphNode [textNode ''Hello'']]) (docNode [paragraphNode [imageNode]])
   = Inr (docNode [paragraphNode [imageNode]])"
  by (simp add: diffEditor_def docNode_def paragraphNode_def textNode_def imageNode_def eval_simps)

text \<open>
  The same guard in the update-right branch drops a right pair of two text-run groups: here
  both the old and the new text are missing from the output.
\<close>

lemma diffEditor_loses_both_texts:
  "diffEditor dmp (docNode [paragraphNode [imageNode, textNode ''old text'']])
                  (docNode [paragraphNode [textNode ''new text'']])
   = Inr (docNode [paragraphNode [imageNode]])"
  by (simp add: diffEditor_def docNode_def paragraphNode_def textNode_def imageNode_def js_def
      eval_simps)

end
